theory Spec2Isabelle
  imports Main "HOL-Library.AList" "HOL-Library.Word"
begin

section \<open>The relay server of \<^verbatim>\<open>src/server.js\<close>\<close>

text \<open>
  The server keeps two insertion-ordered maps, \<^verbatim>\<open>rooms\<close> (PIN to room) and
  \<^verbatim>\<open>activeTransfers\<close> (transfer id to transfer), and reacts to socket.io events.
  Each handler runs to completion, so a handler is a function from the state before the
  event to the state after it together with what the handler emitted, in order.

  A JavaScript \<^verbatim>\<open>Map\<close> is modelled as an association list: \<^verbatim>\<open>get\<close> is
  \<^const>\<open>map_of\<close>, \<^verbatim>\<open>set\<close> is \<^const>\<open>AList.update\<close> (an existing key keeps its
  place, a new key goes to the end) and \<^verbatim>\<open>delete\<close> is \<^const>\<open>AList.delete\<close>.
  A \<^verbatim>\<open>for (const [k, v] of m.entries())\<close> loop whose body only changes or deletes
  the entry it is visiting is modelled as a recursion over the keys present when the loop
  starts, each iteration reading the entry from the current map.

  Payload fields are typed: identifiers and names are strings, chunk indices are natural
  numbers (below \<open>2^53\<close>, so that a JavaScript number holds the index and its successor
  exactly), chunk payloads are byte sequences, flags are booleans, and every event that
  takes an acknowledgement callback is sent with one.
\<close>

subsection \<open>Data\<close>

type_synonym socket_id = string
type_synonym user_id = string
type_synonym pin = string
type_synonym transfer_id = string
type_synonym bytes = "8 word list"

record participant =
  socketId :: socket_id
  userId :: user_id

text \<open>\<^verbatim>\<open>creatorUserId\<close> is absent from a room made by \<^verbatim>\<open>POST /api/room\<close>.\<close>

record room =
  creator :: socket_id
  creatorUserId :: "user_id option"
  participants :: "participant list"
  uniqueUsers :: "user_id set"
  createdAt :: nat

text \<open>
  \<^verbatim>\<open>chunks\<close> is a JavaScript array that is written by index, so it can have holes:
  a hole is \<^const>\<open>None\<close>. The field \<^verbatim>\<open>from\<close> is called \<open>from_socket\<close> here.
\<close>

record transfer =
  from_socket :: socket_id
  pin :: pin
  fileName :: string
  fileSize :: nat
  fileType :: string
  chunks :: "bytes option list"
  totalChunks :: nat
  recipients :: "socket_id list"
  startTime :: nat

text \<open>
  \<open>sio_rooms\<close> is the transport's own table of broadcast groups (socket.io calls them
  rooms): \<^verbatim>\<open>socket.join(name)\<close> and \<^verbatim>\<open>socket.leave(name)\<close> change it. socket.io
  puts every connection into a group named by the connection's id when it connects, and
  takes a connection out of all its groups before the \<^verbatim>\<open>disconnect\<close> handler runs.
\<close>

record state =
  rooms :: "(pin \<times> room) list"
  activeTransfers :: "(transfer_id \<times> transfer) list"
  sio_rooms :: "string \<Rightarrow> socket_id set"

definition init :: state where
  "init = \<lparr>rooms = [], activeTransfers = [], sio_rooms = (\<lambda>_. {})\<rparr>"

subsection \<open>What a handler sends\<close>

text \<open>
  \<open>Socket c\<close> is \<^verbatim>\<open>socket.emit\<close> on connection \<open>c\<close>; \<open>Except g c\<close> is
  \<^verbatim>\<open>socket.to(g).emit\<close> from connection \<open>c\<close> (everyone in group \<open>g\<close> but \<open>c\<close>);
  \<open>Group g\<close> is \<^verbatim>\<open>io.to(g).emit\<close>.
\<close>

datatype target = Socket socket_id | Except string socket_id | Group string

text \<open>
  \<open>UploadProgress\<close> carries the two integers of the quotient
  \<^verbatim>\<open>receivedChunks / (transfer.totalChunks || 1)\<close>; the percentage the code rounds from
  them in floating point is not computed here.
\<close>

datatype message =
    UserJoined socket_id user_id
  | UserLeft socket_id user_id
  | IncomingFile transfer_id string nat string socket_id
  | TransferError transfer_id string
  | UploadProgress transfer_id nat nat
  | FileReceived transfer_id string string bytes socket_id
  | TransferComplete transfer_id
  | DownloadReady transfer_id
  | TransferRejected transfer_id socket_id
  | TransferCancelled transfer_id

datatype ack =
    Failure string
  | Created pin
  | Joined nat bool
  | Initiated transfer_id
  | Success
  | RoomInfo nat bool nat

datatype effect = Emit target message | Callback ack | HttpJson pin nat

text \<open>
  A handler that throws takes the process down (\<open>TypeError\<close>); the PIN loop that has
  not found a free PIN within the random draws it is given has not returned
  (\<open>Diverged\<close>).
\<close>

datatype failure = TypeError | Diverged

type_synonym reaction = "failure + state \<times> effect list"

fun audience :: "state \<Rightarrow> target \<Rightarrow> socket_id set" where
  "audience s (Socket c) = {c}"
| "audience s (Except g c) = sio_rooms s g - {c}"
| "audience s (Group g) = sio_rooms s g"

subsection \<open>Helpers of the run-time\<close>

text \<open>\<^verbatim>\<open>arr[i] = v\<close>: inside the array the slot is overwritten, beyond it the array grows and
  the slots in between are holes. Only the integers up to \<open>2^32 - 2\<close> are array indices:
  a larger \<open>i\<close> names an ordinary property of the array object, which neither changes
  \<^verbatim>\<open>length\<close> nor is visited by \<^verbatim>\<open>filter\<close> and \<^verbatim>\<open>map\<close>, so the list stays as it is.\<close>

definition array_set :: "'a option list \<Rightarrow> nat \<Rightarrow> 'a \<Rightarrow> 'a option list" where
  "array_set xs i v =
     (if 4294967295 \<le> int i then xs
      else if i < length xs then xs[i := Some v]
      else xs @ replicate (i - length xs) None @ [Some v])"

text \<open>\<^verbatim>\<open>Buffer.concat(chunks.map(chunk => Buffer.from(chunk)))\<close>: \<^verbatim>\<open>map\<close> keeps the
  holes and \<^verbatim>\<open>Buffer.concat\<close> throws at the first one. A payload stands for the bytes
  that \<^verbatim>\<open>Buffer.from\<close> makes of the chunk.\<close>

fun buffer_concat :: "bytes option list \<Rightarrow> bytes option" where
  "buffer_concat [] = Some []"
| "buffer_concat (None # cs) = None"
| "buffer_concat (Some c # cs) =
     (case buffer_concat cs of None \<Rightarrow> None | Some r \<Rightarrow> Some (c @ r))"

text \<open>\<^verbatim>\<open>Date.now()\<close> printed inside a template string: decimal digits. A handler that
  reads the clock twice takes two times.\<close>

fun string_of_nat :: "nat \<Rightarrow> string" where
  "string_of_nat n =
     (if n < 10 then [''0123456789'' ! n]
      else string_of_nat (n div 10) @ [''0123456789'' ! (n mod 10)])"

declare string_of_nat.simps [simp del]

text \<open>\<^verbatim>\<open>let pin = generatePIN(); while (rooms.has(pin)) pin = generatePIN();\<close> with the
  successive results of \<^verbatim>\<open>generatePIN()\<close> given as a list.\<close>

fun unique_pin :: "(pin \<times> room) list \<Rightarrow> pin list \<Rightarrow> pin option" where
  "unique_pin rs [] = None"
| "unique_pin rs (p # ps) = (if map_of rs p \<noteq> None then unique_pin rs ps else Some p)"

subsection \<open>Handlers\<close>

definition cleanupExpiredRooms_at :: "nat \<Rightarrow> pin \<Rightarrow> state \<Rightarrow> state" where
  "cleanupExpiredRooms_at now p s =
     (case map_of (rooms s) p of
        None \<Rightarrow> s
      | Some r \<Rightarrow>
          if int (createdAt r) < int now - 60 * 60 * 1000
          then s\<lparr>rooms := AList.delete p (rooms s)\<rparr> else s)"

definition cleanupExpiredRooms :: "nat \<Rightarrow> state \<Rightarrow> state" where
  "cleanupExpiredRooms now s = fold (cleanupExpiredRooms_at now) (map fst (rooms s)) s"

definition http_post_room :: "pin list \<Rightarrow> nat \<Rightarrow> nat \<Rightarrow> state \<Rightarrow> reaction" where
  "http_post_room draws now now' s =
     (case unique_pin (rooms s) draws of
        None \<Rightarrow> Inl Diverged
      | Some p \<Rightarrow>
          Inr (s\<lparr>rooms := AList.update p
                   \<lparr>creator = ''web-api'', creatorUserId = None, participants = [],
                    uniqueUsers = {}, createdAt = now\<rparr> (rooms s)\<rparr>,
               [HttpJson p now']))"

text \<open>
  The \<^verbatim>\<open>connection\<close> handler only registers the handlers below; the transport puts the
  connection into the group named by its id. With \<^verbatim>\<open>connectionStateRecovery\<close> switched
  on, a connection that comes back within two minutes of an unexpected disconnect keeps its
  id and is put back into the groups it was in, although the \<^verbatim>\<open>disconnect\<close> handler has
  run in between: \<open>recovered\<close> lists these groups, and is empty for a new connection.
\<close>

definition connection :: "socket_id \<Rightarrow> string list \<Rightarrow> state \<Rightarrow> state" where
  "connection c recovered s =
     s\<lparr>sio_rooms := (\<lambda>g. if g = c \<or> g \<in> set recovered then insert c (sio_rooms s g)
                          else sio_rooms s g)\<rparr>"

definition create_room :: "socket_id \<Rightarrow> user_id \<Rightarrow> pin list \<Rightarrow> nat \<Rightarrow> state \<Rightarrow> reaction" where
  "create_room c uid draws now s =
     (case unique_pin (rooms s) draws of
        None \<Rightarrow> Inl Diverged
      | Some p \<Rightarrow>
          Inr (s\<lparr>rooms := AList.update p
                   \<lparr>creator = c, creatorUserId = Some uid,
                    participants = [\<lparr>socketId = c, userId = uid\<rparr>],
                    uniqueUsers = {uid}, createdAt = now\<rparr> (rooms s),
                 sio_rooms := (sio_rooms s)(p := insert c (sio_rooms s p))\<rparr>,
               [Callback (Created p)]))"

definition join_room :: "socket_id \<Rightarrow> pin \<Rightarrow> user_id \<Rightarrow> state \<Rightarrow> state \<times> effect list" where
  "join_room c p uid s =
     (case map_of (rooms s) p of
        None \<Rightarrow> (s, [Callback (Failure ''Invalid PIN'')])
      | Some r \<Rightarrow>
          (case find (\<lambda>q. socketId q = c) (participants r) of
             Some existingParticipant \<Rightarrow> (s, [Callback (Failure ''Already in room'')])
           | None \<Rightarrow>
               let r' = r\<lparr>participants := participants r @ [\<lparr>socketId = c, userId = uid\<rparr>],
                          uniqueUsers := insert uid (uniqueUsers r)\<rparr>
               in (s\<lparr>rooms := AList.update p r' (rooms s),
                     sio_rooms := (sio_rooms s)(p := insert c (sio_rooms s p))\<rparr>,
                   [Emit (Except p c) (UserJoined c uid),
                    Callback (Joined (card (uniqueUsers r')) (creator r = c))])))"

definition leave_room :: "socket_id \<Rightarrow> pin \<Rightarrow> state \<Rightarrow> state \<times> effect list" where
  "leave_room c p s =
     (case map_of (rooms s) p of
        None \<Rightarrow> (s, [])
      | Some r \<Rightarrow>
          (case find (\<lambda>q. socketId q = c) (participants r) of
             None \<Rightarrow> (s, [])
           | Some participant \<Rightarrow>
               let ps = filter (\<lambda>q. socketId q \<noteq> c) (participants r);
                   stillHasUser = list_ex (\<lambda>q. userId q = userId participant) ps;
                   r' = r\<lparr>participants := ps,
                          uniqueUsers := (if \<not> stillHasUser
                                          then uniqueUsers r - {userId participant}
                                          else uniqueUsers r)\<rparr>;
                   rs = AList.update p r' (rooms s)
               in (s\<lparr>rooms := (if length ps = 0 then AList.delete p rs else rs),
                     sio_rooms := (sio_rooms s)(p := sio_rooms s p - {c})\<rparr>,
                   [Emit (Except p c) (UserLeft c (userId participant))])))"

definition initiate_file_transfer ::
  "socket_id \<Rightarrow> pin \<Rightarrow> string \<Rightarrow> nat \<Rightarrow> string \<Rightarrow> nat \<Rightarrow> nat \<Rightarrow> state
     \<Rightarrow> state \<times> effect list" where
  "initiate_file_transfer c p fname fsize ftype now now' s =
     (case map_of (rooms s) p of
        None \<Rightarrow> (s, [Callback (Failure ''Room not found'')])
      | Some r \<Rightarrow>
          let transferId = c @ ''_'' @ string_of_nat now;
              rcpts = map socketId (filter (\<lambda>q. socketId q \<noteq> c) (participants r))
          in if length rcpts = 0 then (s, [Callback (Failure ''No recipients in room'')])
             else (s\<lparr>activeTransfers := AList.update transferId
                        \<lparr>from_socket = c, pin = p, fileName = fname, fileSize = fsize,
                         fileType = ftype, chunks = [], totalChunks = 0,
                         recipients = rcpts, startTime = now'\<rparr> (activeTransfers s)\<rparr>,
                   [Emit (Except p c) (IncomingFile transferId fname fsize ftype c),
                    Callback (Initiated transferId)]))"

definition file_chunk ::
  "socket_id \<Rightarrow> transfer_id \<Rightarrow> nat \<Rightarrow> bytes \<Rightarrow> bool \<Rightarrow> state \<Rightarrow> reaction" where
  "file_chunk c tid chunkIndex chunkData isLast s =
     (case map_of (activeTransfers s) tid of
        None \<Rightarrow> Inr (s, [Emit (Socket c) (TransferError tid ''Invalid transfer'')])
      | Some t \<Rightarrow>
          if from_socket t \<noteq> c
          then Inr (s, [Emit (Socket c) (TransferError tid ''Invalid transfer'')])
          else
            let t' = t\<lparr>chunks := array_set (chunks t) chunkIndex chunkData,
                       totalChunks := (if isLast then chunkIndex + 1 else totalChunks t)\<rparr>;
                receivedChunks = length (filter (\<lambda>chunk. chunk \<noteq> None) (chunks t'));
                progress = Emit (Socket c)
                  (UploadProgress tid receivedChunks
                     (if totalChunks t' = 0 then 1 else totalChunks t'));
                s' = s\<lparr>activeTransfers := AList.update tid t' (activeTransfers s)\<rparr>
            in if isLast \<and> receivedChunks = totalChunks t'
               then (case buffer_concat (chunks t') of
                       None \<Rightarrow> Inl TypeError
                     | Some completeFile \<Rightarrow>
                         Inr (s'\<lparr>activeTransfers := AList.delete tid (activeTransfers s')\<rparr>,
                              [progress,
                               Emit (Except (pin t') c)
                                 (FileReceived tid (fileName t') (fileType t') completeFile c),
                               Emit (Socket c) (TransferComplete tid)]))
               else Inr (s', [progress]))"

definition respond_to_file ::
  "socket_id \<Rightarrow> transfer_id \<Rightarrow> bool \<Rightarrow> state \<Rightarrow> state \<times> effect list" where
  "respond_to_file c tid accept s =
     (case map_of (activeTransfers s) tid of
        None \<Rightarrow> (s, [Callback (Failure ''Transfer not found'')])
      | Some t \<Rightarrow>
          if accept then (s, [Emit (Socket c) (DownloadReady tid), Callback Success])
          else (s, [Emit (Group (from_socket t)) (TransferRejected tid c), Callback Success]))"

definition get_room_info :: "socket_id \<Rightarrow> pin \<Rightarrow> state \<Rightarrow> state \<times> effect list" where
  "get_room_info c p s =
     (case map_of (rooms s) p of
        None \<Rightarrow> (s, [Callback (Failure ''Room not found'')])
      | Some r \<Rightarrow>
          (s, [Callback (RoomInfo (card (uniqueUsers r)) (creator r = c) (createdAt r))]))"

text \<open>The body of the first loop of the \<^verbatim>\<open>disconnect\<close> handler, for the room at one PIN.\<close>

definition disconnect_room :: "socket_id \<Rightarrow> pin \<Rightarrow> state \<Rightarrow> state \<times> effect list" where
  "disconnect_room c p s =
     (case map_of (rooms s) p of
        None \<Rightarrow> (s, [])
      | Some r \<Rightarrow>
          (case find (\<lambda>q. socketId q = c) (participants r) of
             None \<Rightarrow> (s, [])
           | Some participant \<Rightarrow>
               let ps = filter (\<lambda>q. socketId q \<noteq> c) (participants r);
                   stillHasUser = list_ex (\<lambda>q. userId q = userId participant) ps;
                   r' = r\<lparr>participants := ps,
                          uniqueUsers := (if \<not> stillHasUser
                                          then uniqueUsers r - {userId participant}
                                          else uniqueUsers r)\<rparr>;
                   rs = AList.update p r' (rooms s)
               in (s\<lparr>rooms := (if length ps = 0 then AList.delete p rs else rs)\<rparr>,
                   [Emit (Except p c) (UserLeft c (userId participant))])))"

fun disconnect_rooms :: "socket_id \<Rightarrow> pin list \<Rightarrow> state \<Rightarrow> state \<times> effect list" where
  "disconnect_rooms c [] s = (s, [])"
| "disconnect_rooms c (p # ps) s =
     (let (s', out) = disconnect_room c p s;
          (s'', out') = disconnect_rooms c ps s'
      in (s'', out @ out'))"

text \<open>The body of the second loop, for the transfer at one id.\<close>

definition disconnect_transfer ::
  "socket_id \<Rightarrow> transfer_id \<Rightarrow> state \<Rightarrow> state \<times> effect list" where
  "disconnect_transfer c tid s =
     (case map_of (activeTransfers s) tid of
        None \<Rightarrow> (s, [])
      | Some t \<Rightarrow>
          if from_socket t = c
          then (s\<lparr>activeTransfers := AList.delete tid (activeTransfers s)\<rparr>,
                [Emit (Group (pin t)) (TransferCancelled tid)])
          else (s, []))"

fun disconnect_transfers ::
  "socket_id \<Rightarrow> transfer_id list \<Rightarrow> state \<Rightarrow> state \<times> effect list" where
  "disconnect_transfers c [] s = (s, [])"
| "disconnect_transfers c (tid # tids) s =
     (let (s', out) = disconnect_transfer c tid s;
          (s'', out') = disconnect_transfers c tids s'
      in (s'', out @ out'))"

text \<open>The transport has taken the connection out of every group when the handler starts.\<close>

definition transport_close :: "socket_id \<Rightarrow> state \<Rightarrow> state" where
  "transport_close c s = s\<lparr>sio_rooms := (\<lambda>g. sio_rooms s g - {c})\<rparr>"

definition disconnect :: "socket_id \<Rightarrow> state \<Rightarrow> state \<times> effect list" where
  "disconnect c s =
     (let s0 = transport_close c s;
          (s1, out1) = disconnect_rooms c (map fst (rooms s0)) s0;
          (s2, out2) = disconnect_transfers c (map fst (activeTransfers s1)) s1
      in (s2, out1 @ out2))"

subsection \<open>Events and runs\<close>

datatype event =
    Connection socket_id "string list"
  | CreateRoom socket_id user_id "pin list" nat
  | JoinRoom socket_id pin user_id
  | LeaveRoom socket_id pin
  | InitiateFileTransfer socket_id pin string nat string nat nat
  | FileChunk socket_id transfer_id nat bytes bool
  | RespondToFile socket_id transfer_id bool
  | GetRoomInfo socket_id pin
  | Disconnect socket_id
  | HttpPostRoom "pin list" nat nat
  | CleanupExpiredRooms nat

fun step :: "event \<Rightarrow> state \<Rightarrow> reaction" where
  "step (Connection c recovered) s = Inr (connection c recovered s, [])"
| "step (CreateRoom c uid draws now) s = create_room c uid draws now s"
| "step (JoinRoom c p uid) s = Inr (join_room c p uid s)"
| "step (LeaveRoom c p) s = Inr (leave_room c p s)"
| "step (InitiateFileTransfer c p fname fsize ftype now now') s =
     Inr (initiate_file_transfer c p fname fsize ftype now now' s)"
| "step (FileChunk c tid i d l) s = file_chunk c tid i d l s"
| "step (RespondToFile c tid a) s = Inr (respond_to_file c tid a s)"
| "step (GetRoomInfo c p) s = Inr (get_room_info c p s)"
| "step (Disconnect c) s = Inr (disconnect c s)"
| "step (HttpPostRoom draws now now') s = http_post_room draws now now' s"
| "step (CleanupExpiredRooms now) s = Inr (cleanupExpiredRooms now s, [])"

text \<open>A run stops at the first failure, as the process does.\<close>

fun run :: "event list \<Rightarrow> state \<Rightarrow> reaction" where
  "run [] s = Inr (s, [])"
| "run (e # es) s =
     (case step e s of
        Inl f \<Rightarrow> Inl f
      | Inr (s', out) \<Rightarrow>
          (case run es s' of
             Inl f \<Rightarrow> Inl f
           | Inr (s'', out') \<Rightarrow> Inr (s'', out @ out')))"

subsection \<open>Invariants of the room registry\<close>

text \<open>
  A room is well formed when no connection is listed twice and \<^verbatim>\<open>uniqueUsers\<close> holds
  exactly the user ids of the listed connections. The flag says whether rooms without
  participants are admitted: only \<^verbatim>\<open>POST /api/room\<close> makes one, with creator
  \<^verbatim>\<open>"web-api"\<close>.
\<close>

definition room_ok :: "bool \<Rightarrow> room \<Rightarrow> bool" where
  "room_ok web r \<longleftrightarrow>
     distinct (map socketId (participants r)) \<and>
     uniqueUsers r = userId ` set (participants r) \<and>
     (participants r = [] \<longrightarrow> web \<and> creator r = ''web-api'')"

definition rooms_all :: "(room \<Rightarrow> bool) \<Rightarrow> (pin \<times> room) list \<Rightarrow> bool" where
  "rooms_all P rs \<longleftrightarrow> (\<forall>p r. map_of rs p = Some r \<longrightarrow> P r)"

definition state_ok :: "bool \<Rightarrow> state \<Rightarrow> bool" where
  "state_ok web s \<longleftrightarrow>
     distinct (map fst (rooms s)) \<and> distinct (map fst (activeTransfers s)) \<and>
     rooms_all (room_ok web) (rooms s)"

fun is_http :: "event \<Rightarrow> bool" where
  "is_http (HttpPostRoom draws now now') = True"
| "is_http e = False"

subsection \<open>Concrete runs and auxiliary notions\<close>

text \<open>
  Connections \<open>A\<close>, \<open>B\<close> and \<open>C\<close>; \<open>A\<close> creates room 483920 as user
  \<open>u1\<close>; \<open>B\<close> and \<open>C\<close> join, both as user \<open>u2\<close>; \<open>B\<close> leaves; \<open>A\<close>
  starts a transfer at time 5.
\<close>

definition demo_events :: "event list" where
  "demo_events =
     [Connection ''A'' [], Connection ''B'' [], Connection ''C'' [],
      CreateRoom ''A'' ''u1'' [''483920''] 0,
      JoinRoom ''B'' ''483920'' ''u2'', JoinRoom ''C'' ''483920'' ''u2'',
      LeaveRoom ''B'' ''483920'',
      InitiateFileTransfer ''A'' ''483920'' ''f.bin'' 10 ''bin'' 5 6]"

definition demo_state :: state where
  "demo_state = fst (projr (run demo_events init))"

text \<open>
  A second run: one \<^verbatim>\<open>POST /api/room\<close> on the empty server, then \<open>A\<close> creates a room;
  the first PIN drawn for it is taken, the second is free.
\<close>

definition web_events :: "event list" where
  "web_events =
     [HttpPostRoom [''483920''] 1 2, Connection ''A'' [],
      CreateRoom ''A'' ''u1'' [''483920'', ''111111''] 3]"

definition web_state :: state where
  "web_state = fst (projr (run web_events init))"

text \<open>
  The connections that the \<^verbatim>\<open>file_received\<close> emissions of a reaction reach, in the state
  the reaction leaves.
\<close>

fun file_received_to :: "state \<Rightarrow> effect list \<Rightarrow> socket_id set" where
  "file_received_to s [] = {}"
| "file_received_to s (Emit tg (FileReceived tid fname ftype fileData c) # es) =
     audience s tg \<union> file_received_to s es"
| "file_received_to s (e # es) = file_received_to s es"

text \<open>
  A third run: \<open>S\<close> creates the room, \<open>R\<close> joins, \<open>S\<close> starts a transfer, and only
  then \<open>Q\<close> joins.
\<close>

definition late_events :: "event list" where
  "late_events =
     [Connection ''S'' [], Connection ''R'' [], Connection ''Q'' [],
      CreateRoom ''S'' ''u1'' [''483920''] 0,
      JoinRoom ''R'' ''483920'' ''u2'',
      InitiateFileTransfer ''S'' ''483920'' ''f.bin'' 2 ''bin'' 5 6,
      JoinRoom ''Q'' ''483920'' ''u3'']"

definition late_state :: state where
  "late_state = fst (projr (run late_events init))"



text \<open>
  Every connection listed in a room is in the transport group of the room's PIN.
\<close>

definition listed_ok :: "state \<Rightarrow> bool" where
  "listed_ok s \<longleftrightarrow>
     (\<forall>p r. map_of (rooms s) p = Some r \<longrightarrow> socketId ` set (participants r) \<subseteq> sio_rooms s p)"

subsection \<open>Room membership in the words of the specification\<close>

text \<open>
  Not taken from the source: the room registry as sections 3 and 4.1 of the specification
  describe it, to compare the code with. A room is its creation time and the ordered list
  of its active pairs of connection and user. \<open>CreateRoom\<close> takes the first drawn code
  that no live room holds and inserts a room with the creator as its sole member (the
  out-of-band creation inserts it without members). \<open>JoinRoom\<close> appends the pair unless
  the room is absent or the connection is already listed. \<open>LeaveRoom\<close> is a no-op if
  the room or the participant is absent; otherwise it removes the pair and deletes the room
  if it is now empty. \<open>HandleDisconnect\<close> is \<open>LeaveRoom\<close> for every room. \<open>Sweep\<close>
  deletes every room older than one hour. Nothing else changes membership; in particular a
  recovered connection has not joined.
\<close>

type_synonym spec_room = "nat \<times> (socket_id \<times> user_id) list"



definition spec_sweep :: "nat \<Rightarrow> spec_room option \<Rightarrow> spec_room option" where
  "spec_sweep now room =
     (case room of
        None \<Rightarrow> None
      | Some (created, pairs) \<Rightarrow>
          if int created < int now - 60 * 60 * 1000 then None else Some (created, pairs))"






section \<open>Lemmas\<close>

subsection \<open>Lists, sets and lookups\<close>

lemma find_socket_filter [simp]:
  "find (\<lambda>q. socketId q = c) (filter (\<lambda>q. socketId q \<noteq> c) xs) = None"
  by (simp add: find_None_iff)

lemma find_socket_Some:
  "find (\<lambda>q. socketId q = c) xs = Some x \<Longrightarrow> x \<in> set xs \<and> socketId x = c"
  by (auto simp: find_Some_iff)

lemma find_socket_None:
  "find (\<lambda>q. socketId q = c) xs = None \<longleftrightarrow> c \<notin> socketId ` set xs"
  by (auto simp: find_None_iff)

lemma unique_pin_fresh: "unique_pin rs draws = Some p \<Longrightarrow> map_of rs p = None"
  by (induction draws) (auto split: if_splits)

lemma set_filter_other_sockets:
  assumes "distinct (map socketId xs)" and "q \<in> set xs"
  shows "set (filter (\<lambda>x. socketId x \<noteq> socketId q) xs) = set xs - {q}"
  using assms by (auto simp: distinct_map inj_on_def)

lemma image_remove_kept: "x \<in> A \<Longrightarrow> x \<noteq> q \<Longrightarrow> f x = f q \<Longrightarrow> f ` (A - {q}) = f ` A"
proof
  show "f ` (A - {q}) \<subseteq> f ` A" by blast
next
  assume a: "x \<in> A" "x \<noteq> q" "f x = f q"
  show "f ` A \<subseteq> f ` (A - {q})"
  proof
    fix y assume "y \<in> f ` A"
    then obtain z where z: "z \<in> A" "y = f z" by blast
    show "y \<in> f ` (A - {q})"
    proof (cases "z = q")
      case True
      with a z have "x \<in> A - {q}" "y = f x" by simp_all
      then show ?thesis by (rule image_eqI [rotated])
    next
      case False
      with z have "z \<in> A - {q}" by simp
      with z(2) show ?thesis by (rule image_eqI)
    qed
  qed
qed

lemma image_remove_last:
  assumes "q \<in> A" and "\<forall>x \<in> A. x \<noteq> q \<longrightarrow> f x \<noteq> f q"
  shows "f ` (A - {q}) = f ` A - {f q}"
proof (rule set_eqI)
  fix y
  show "y \<in> f ` (A - {q}) \<longleftrightarrow> y \<in> f ` A - {f q}"
  proof
    assume "y \<in> f ` (A - {q})"
    then obtain z where "z \<in> A" "z \<noteq> q" "y = f z" by (auto simp: image_iff)
    with assms(2) show "y \<in> f ` A - {f q}" by simp
  next
    assume "y \<in> f ` A - {f q}"
    then obtain z where "z \<in> A" "y = f z" "y \<noteq> f q" by (auto simp: image_iff)
    then have "z \<in> A - {q}" by auto
    with \<open>y = f z\<close> show "y \<in> f ` (A - {q})" by (rule image_eqI)
  qed
qed


lemma users_left:
  assumes d: "distinct (map socketId ps)" and q: "q \<in> set ps"
  shows "userId ` set (filter (\<lambda>x. socketId x \<noteq> socketId q) ps) =
           (if \<not> list_ex (\<lambda>x. userId x = userId q) (filter (\<lambda>x. socketId x \<noteq> socketId q) ps)
            then userId ` set ps - {userId q} else userId ` set ps)"
proof -
  let ?ps = "filter (\<lambda>x. socketId x \<noteq> socketId q) ps"
  have rest: "set ?ps = set ps - {q}"
    by (rule set_filter_other_sockets [OF d q])
  show ?thesis
  proof (cases "list_ex (\<lambda>x. userId x = userId q) ?ps")
    case True
    then obtain x where x: "x \<in> set ?ps" "userId x = userId q"
      unfolding list_ex_iff by blast
    from x(1) have "x \<in> set ps" "x \<noteq> q"
      unfolding rest by simp_all
    from image_remove_kept [OF this x(2)] have "userId ` set ?ps = userId ` set ps"
      unfolding rest .
    with True show ?thesis by (simp only: not_True_eq_False if_False)
  next
    case False
    then have "\<forall>x \<in> set ?ps. userId x \<noteq> userId q"
      unfolding list_ex_iff by blast
    then have "\<forall>x \<in> set ps. x \<noteq> q \<longrightarrow> userId x \<noteq> userId q"
      unfolding rest by simp
    from image_remove_last [OF q this]
    have "userId ` set ?ps = userId ` set ps - {userId q}"
      unfolding rest .
    with False show ?thesis by (simp only: not_False_eq_True if_True)
  qed
qed

lemma room_ok_left:
  assumes ok: "room_ok web r"
    and f: "find (\<lambda>q. socketId q = c) (participants r) = Some q"
    and ne: "filter (\<lambda>x. socketId x \<noteq> c) (participants r) \<noteq> []"
  shows "room_ok web
           (r\<lparr>participants := filter (\<lambda>x. socketId x \<noteq> c) (participants r),
              uniqueUsers :=
                (if \<not> list_ex (\<lambda>x. userId x = userId q)
                         (filter (\<lambda>x. socketId x \<noteq> c) (participants r))
                 then uniqueUsers r - {userId q} else uniqueUsers r)\<rparr>)"
proof -
  from find_socket_Some [OF f] have q: "q \<in> set (participants r)" and c: "socketId q = c"
    by simp_all
  from ok have d: "distinct (map socketId (participants r))"
    and u: "uniqueUsers r = userId ` set (participants r)"
    by (simp_all add: room_ok_def)
  from d have d': "distinct (map socketId (filter (\<lambda>x. socketId x \<noteq> c) (participants r)))"
    by (rule distinct_map_filter)
  note users = users_left [OF d q, unfolded c, folded u, symmetric]
  show ?thesis
    unfolding room_ok_def using d' ne users by simp
qed

declare map_of_eq_Some_iff [simp del]

subsection \<open>Every handler keeps the registry well formed\<close>

lemma rooms_allD: "rooms_all P rs \<Longrightarrow> map_of rs p = Some r \<Longrightarrow> P r"
  by (simp add: rooms_all_def)

lemma rooms_all_update: "rooms_all P rs \<Longrightarrow> P r \<Longrightarrow> rooms_all P (AList.update p r rs)"
  by (simp add: rooms_all_def update_conv')

lemma rooms_all_delete: "rooms_all P rs \<Longrightarrow> rooms_all P (AList.delete p rs)"
  by (simp add: rooms_all_def delete_conv')

lemma room_ok_joined:
  assumes "room_ok web r" and "find (\<lambda>q. socketId q = c) (participants r) = None"
  shows "room_ok web (r\<lparr>participants := participants r @ [\<lparr>socketId = c, userId = uid\<rparr>],
                          uniqueUsers := insert uid (uniqueUsers r)\<rparr>)"
  using assms by (simp add: room_ok_def find_socket_None)

lemma state_ok_init: "state_ok web init"
  by (simp add: state_ok_def init_def rooms_all_def)

lemma state_ok_leave_room:
  assumes "state_ok web s"
  shows "state_ok web (fst (leave_room c p s))"
proof (cases "map_of (rooms s) p")
  case None
  with assms show ?thesis by (simp add: leave_room_def)
next
  case (Some r)
  note r = this
  show ?thesis
  proof (cases "find (\<lambda>q. socketId q = c) (participants r)")
    case None
    with r assms show ?thesis by (simp add: leave_room_def)
  next
    case (Some q)
    from assms r have ok: "room_ok web r"
      by (auto simp: state_ok_def dest: rooms_allD)
    show ?thesis
    proof (cases "filter (\<lambda>x. socketId x \<noteq> c) (participants r) = []")
      case True
      with assms r Some show ?thesis
        by (simp add: leave_room_def Let_def state_ok_def distinct_update distinct_delete
            delete_update_same rooms_all_delete)
    next
      case False
      from room_ok_left [OF ok Some False] assms r Some False show ?thesis
        by (simp add: leave_room_def Let_def state_ok_def distinct_update rooms_all_update)
    qed
  qed
qed

lemma disconnect_room_leave_room:
  "disconnect_room c p s =
     (fst (leave_room c p s)\<lparr>sio_rooms := sio_rooms s\<rparr>, snd (leave_room c p s))"
  by (simp add: disconnect_room_def leave_room_def Let_def split: option.splits)

lemma state_ok_sio [simp]: "state_ok web (s\<lparr>sio_rooms := g\<rparr>) = state_ok web s"
  by (simp add: state_ok_def)

lemma state_ok_disconnect_room:
  "state_ok web s \<Longrightarrow> state_ok web (fst (disconnect_room c p s))"
  by (simp add: disconnect_room_leave_room state_ok_leave_room)

lemma state_ok_disconnect_rooms:
  "state_ok web s \<Longrightarrow> state_ok web (fst (disconnect_rooms c ps s))"
proof (induction ps arbitrary: s)
  case Nil
  then show ?case by simp
next
  case (Cons p ps)
  from Cons.prems have "state_ok web (fst (disconnect_room c p s))"
    by (rule state_ok_disconnect_room)
  then have "state_ok web (fst (disconnect_rooms c ps (fst (disconnect_room c p s))))"
    by (rule Cons.IH)
  then show ?case by (simp add: split_beta)
qed

lemma state_ok_disconnect_transfer:
  "state_ok web s \<Longrightarrow> state_ok web (fst (disconnect_transfer c tid s))"
  by (simp add: state_ok_def disconnect_transfer_def distinct_delete split: option.splits)

lemma state_ok_disconnect_transfers:
  "state_ok web s \<Longrightarrow> state_ok web (fst (disconnect_transfers c tids s))"
proof (induction tids arbitrary: s)
  case Nil
  then show ?case by simp
next
  case (Cons tid tids)
  from Cons.prems have "state_ok web (fst (disconnect_transfer c tid s))"
    by (rule state_ok_disconnect_transfer)
  then have "state_ok web (fst (disconnect_transfers c tids (fst (disconnect_transfer c tid s))))"
    by (rule Cons.IH)
  then show ?case by (simp add: split_beta)
qed

lemma state_ok_disconnect: "state_ok web s \<Longrightarrow> state_ok web (fst (disconnect c s))"
  by (simp add: disconnect_def Let_def split_beta transport_close_def
      state_ok_disconnect_rooms state_ok_disconnect_transfers)

lemma state_ok_join_room:
  assumes "state_ok web s"
  shows "state_ok web (fst (join_room c p uid s))"
proof (cases "map_of (rooms s) p")
  case None
  with assms show ?thesis by (simp add: join_room_def)
next
  case (Some r)
  note r = this
  show ?thesis
  proof (cases "find (\<lambda>q. socketId q = c) (participants r)")
    case (Some q)
    with r assms show ?thesis by (simp add: join_room_def)
  next
    case None
    from assms r have "room_ok web r"
      by (auto simp: state_ok_def dest: rooms_allD)
    from room_ok_joined [OF this None] assms r None show ?thesis
      by (simp add: join_room_def Let_def state_ok_def distinct_update rooms_all_update)
  qed
qed

lemma state_ok_create_room:
  assumes "state_ok web s" and "create_room c uid draws now s = Inr (s', out)"
  shows "state_ok web s'"
proof (cases "unique_pin (rooms s) draws")
  case None
  with assms show ?thesis by (simp add: create_room_def)
next
  case (Some p)
  have "room_ok web \<lparr>creator = c, creatorUserId = Some uid,
          participants = [\<lparr>socketId = c, userId = uid\<rparr>], uniqueUsers = {uid}, createdAt = now\<rparr>"
    by (simp add: room_ok_def)
  with assms Some show ?thesis
    by (auto simp: create_room_def state_ok_def distinct_update rooms_all_update)
qed

lemma state_ok_http_post_room:
  assumes "state_ok True s" and "http_post_room draws now now' s = Inr (s', out)"
  shows "state_ok True s'"
proof (cases "unique_pin (rooms s) draws")
  case None
  with assms show ?thesis by (simp add: http_post_room_def)
next
  case (Some p)
  have "room_ok True \<lparr>creator = ''web-api'', creatorUserId = None,
          participants = [], uniqueUsers = {}, createdAt = now\<rparr>"
    by (simp add: room_ok_def)
  with assms Some show ?thesis
    by (auto simp: http_post_room_def state_ok_def distinct_update rooms_all_update)
qed

lemma state_ok_initiate:
  "state_ok web s \<Longrightarrow>
     state_ok web (fst (initiate_file_transfer c p fname fsize ftype now now' s))"
  by (simp add: state_ok_def initiate_file_transfer_def Let_def distinct_update
      split: option.splits)

lemma rooms_file_chunk: "file_chunk c tid i d l s = Inr (s', out) \<Longrightarrow> rooms s' = rooms s"
  by (auto simp: file_chunk_def Let_def split: option.splits if_splits)

lemma distinct_file_chunk:
  "file_chunk c tid i d l s = Inr (s', out) \<Longrightarrow> distinct (map fst (activeTransfers s))
     \<Longrightarrow> distinct (map fst (activeTransfers s'))"
  by (auto simp: file_chunk_def Let_def distinct_update distinct_delete
      split: option.splits if_splits)

lemma state_ok_file_chunk:
  "state_ok web s \<Longrightarrow> file_chunk c tid i d l s = Inr (s', out) \<Longrightarrow> state_ok web s'"
  by (simp add: state_ok_def rooms_file_chunk distinct_file_chunk)

lemma state_ok_cleanup_at: "state_ok web s \<Longrightarrow> state_ok web (cleanupExpiredRooms_at now p s)"
  by (simp add: state_ok_def cleanupExpiredRooms_at_def rooms_all_delete distinct_delete
      split: option.splits)

lemma state_ok_cleanup_fold:
  "state_ok web s \<Longrightarrow> state_ok web (fold (cleanupExpiredRooms_at now) ps s)"
  by (induction ps arbitrary: s) (simp_all add: state_ok_cleanup_at)

lemma state_ok_step:
  assumes "state_ok web s" and "step e s = Inr (s', out)" and "web \<or> \<not> is_http e"
  shows "state_ok web s'"
proof (cases e)
  case (Connection c recovered)
  with assms show ?thesis by (auto simp: connection_def)
next
  case (CreateRoom c uid draws now)
  with assms show ?thesis by (auto dest: state_ok_create_room)
next
  case (JoinRoom c p uid)
  with assms state_ok_join_room [of web s c p uid] show ?thesis by auto
next
  case (LeaveRoom c p)
  with assms state_ok_leave_room [of web s c p] show ?thesis by auto
next
  case (InitiateFileTransfer c p fname fsize ftype now now')
  with assms state_ok_initiate [of web s c p fname fsize ftype now now'] show ?thesis by auto
next
  case (FileChunk c tid i d l)
  with assms show ?thesis by (auto dest: state_ok_file_chunk)
next
  case (RespondToFile c tid a)
  with assms show ?thesis by (auto simp: respond_to_file_def split: option.splits if_splits)
next
  case (GetRoomInfo c p)
  with assms show ?thesis by (auto simp: get_room_info_def split: option.splits)
next
  case (Disconnect c)
  with assms state_ok_disconnect [of web s c] show ?thesis by auto
next
  case (HttpPostRoom draws now now')
  with assms show ?thesis by (auto dest: state_ok_http_post_room)
next
  case (CleanupExpiredRooms now)
  with assms show ?thesis by (auto simp: cleanupExpiredRooms_def state_ok_cleanup_fold)
qed

lemma state_ok_run:
  "state_ok web s \<Longrightarrow> run es s = Inr (s', out) \<Longrightarrow> web \<or> (\<forall>e \<in> set es. \<not> is_http e)
     \<Longrightarrow> state_ok web s'"
proof (induction es arbitrary: s out)
  case Nil
  then show ?case by simp
next
  case (Cons e es)
  from Cons.prems(2) obtain s1 out1 out2 where
    e: "step e s = Inr (s1, out1)" and es: "run es s1 = Inr (s', out2)"
    by (auto split: sum.splits prod.splits)
  from Cons.prems(1) e Cons.prems(3) have "state_ok web s1"
    by (auto intro: state_ok_step)
  with es Cons.prems(3) show ?case
    by (auto intro: Cons.IH)
qed


subsection \<open>The first run, evaluated\<close>

lemma demo_run: "\<not> isl (run demo_events init)"
  by code_simp

lemma demo_rooms: "rooms demo_state = [(''483920'',
           \<lparr>creator = ''A'', creatorUserId = Some ''u1'',
              participants =
                [\<lparr>socketId = ''A'', userId = ''u1''\<rparr>,
                 \<lparr>socketId = ''C'', userId = ''u2''\<rparr>],
              uniqueUsers = {''u1'', ''u2''}, createdAt = 0\<rparr>)]"
  by code_simp

lemma demo_transfers: "activeTransfers demo_state = [(''A_5'',
             \<lparr>from_socket = ''A'', pin = ''483920'', fileName = ''f.bin'',
                fileSize = 10, fileType = ''bin'', chunks = [],
                totalChunks = 0, recipients = [''C''], startTime = 6\<rparr>)]"
  by code_simp

lemma demo_group: "sio_rooms demo_state ''483920'' = {''A'', ''C''}"
  by code_simp


lemma run_Inr: "\<not> isl x \<Longrightarrow> x = Inr (fst (projr x), snd (projr x))"
  by (cases x) simp_all

lemma demo_reached: "run demo_events init = Inr (demo_state, snd (projr (run demo_events init)))"
  unfolding demo_state_def by (rule run_Inr [OF demo_run])

lemma demo_room: "map_of (rooms demo_state) ''483920'' =
   Some \<lparr>creator = ''A'', creatorUserId = Some ''u1'',
              participants =
                [\<lparr>socketId = ''A'', userId = ''u1''\<rparr>,
                 \<lparr>socketId = ''C'', userId = ''u2''\<rparr>],
              uniqueUsers = {''u1'', ''u2''}, createdAt = 0\<rparr>"
  by (simp add: demo_rooms)

lemma demo_transfer: "map_of (activeTransfers demo_state) ''A_5'' =
   Some \<lparr>from_socket = ''A'', pin = ''483920'', fileName = ''f.bin'',
                fileSize = 10, fileType = ''bin'', chunks = [],
                totalChunks = 0, recipients = [''C''], startTime = 6\<rparr>"
  by (simp add: demo_transfers)

subsection \<open>The disconnect handler, room by room and transfer by transfer\<close>

lemma leave_room_lookup_other:
  "q \<noteq> p \<Longrightarrow> map_of (rooms (fst (leave_room c p s))) q = map_of (rooms s) q"
  by (simp add: leave_room_def Let_def update_conv' delete_conv' split: option.splits)

lemma leave_room_lookup_cong:
  "map_of (rooms s) p = map_of (rooms t) p \<Longrightarrow>
     map_of (rooms (fst (leave_room c p s))) p = map_of (rooms (fst (leave_room c p t))) p"
  by (simp add: leave_room_def Let_def update_conv' delete_conv' split: option.splits)

lemma leave_room_snd_cong:
  "map_of (rooms s) p = map_of (rooms t) p \<Longrightarrow> snd (leave_room c p s) = snd (leave_room c p t)"
  by (simp add: leave_room_def Let_def split: option.splits)

lemma leave_room_lookup_again:
  "map_of (rooms (fst (leave_room c p (fst (leave_room c p s))))) p =
     map_of (rooms (fst (leave_room c p s))) p"
  by (simp add: leave_room_def Let_def update_conv' delete_conv' split: option.splits)

lemma leave_room_transfers [simp]:
  "activeTransfers (fst (leave_room c p s)) = activeTransfers s"
  by (simp add: leave_room_def Let_def split: option.splits)

lemma disconnect_room_rooms: "rooms (fst (disconnect_room c p s)) = rooms (fst (leave_room c p s))"
  by (simp add: disconnect_room_leave_room)

lemma disconnect_room_snd: "snd (disconnect_room c p s) = snd (leave_room c p s)"
  by (simp add: disconnect_room_leave_room)

lemma disconnect_rooms_lookup:
  "map_of (rooms (fst (disconnect_rooms c ps s))) q =
     (if q \<in> set ps then map_of (rooms (fst (leave_room c q s))) q else map_of (rooms s) q)"
proof (induction ps arbitrary: s)
  case Nil
  show ?case by simp
next
  case (Cons p ps)
  let ?s1 = "fst (disconnect_room c p s)"
  have step: "map_of (rooms (fst (disconnect_rooms c (p # ps) s))) q =
               map_of (rooms (fst (disconnect_rooms c ps ?s1))) q"
    by (simp add: split_beta)
  have r1: "rooms ?s1 = rooms (fst (leave_room c p s))"
    by (rule disconnect_room_rooms)
  show ?case
  proof (cases "q = p")
    case True
    have "map_of (rooms (fst (leave_room c p ?s1))) p = map_of (rooms (fst (leave_room c p s))) p"
      using leave_room_lookup_cong [of ?s1 p "fst (leave_room c p s)" c] r1
      by (simp add: leave_room_lookup_again)
    with True r1 show ?thesis
      unfolding step Cons.IH by simp
  next
    case False
    then have same: "map_of (rooms ?s1) q = map_of (rooms s) q"
      unfolding r1 by (rule leave_room_lookup_other)
    from leave_room_lookup_cong [OF same] same False show ?thesis
      unfolding step Cons.IH by simp
  qed
qed

lemma disconnect_rooms_snd:
  "distinct ps \<Longrightarrow>
     snd (disconnect_rooms c ps s) = concat (map (\<lambda>p. snd (leave_room c p s)) ps)"
proof (induction ps arbitrary: s)
  case Nil
  show ?case by simp
next
  case (Cons p ps)
  let ?s1 = "fst (disconnect_room c p s)"
  have r1: "rooms ?s1 = rooms (fst (leave_room c p s))"
    by (rule disconnect_room_rooms)
  have "snd (leave_room c q ?s1) = snd (leave_room c q s)" if "q \<in> set ps" for q
  proof -
    from that Cons.prems have "q \<noteq> p" by auto
    then have "map_of (rooms ?s1) q = map_of (rooms s) q"
      unfolding r1 by (rule leave_room_lookup_other)
    then show ?thesis by (rule leave_room_snd_cong)
  qed
  then have eq: "map (\<lambda>q. snd (leave_room c q ?s1)) ps = map (\<lambda>q. snd (leave_room c q s)) ps"
    by (intro map_cong refl)
  from Cons.prems have ih: "snd (disconnect_rooms c ps ?s1) =
      concat (map (\<lambda>q. snd (leave_room c q ?s1)) ps)"
    by (simp add: Cons.IH)
  have "snd (disconnect_rooms c (p # ps) s) =
          snd (leave_room c p s) @ snd (disconnect_rooms c ps ?s1)"
    by (simp add: split_beta disconnect_room_snd)
  then show ?case
    unfolding ih eq by simp
qed

lemma disconnect_room_frame [simp]:
  "activeTransfers (fst (disconnect_room c p s)) = activeTransfers s"
  "sio_rooms (fst (disconnect_room c p s)) = sio_rooms s"
  by (simp_all add: disconnect_room_leave_room)

lemma disconnect_rooms_frame [simp]:
  "activeTransfers (fst (disconnect_rooms c ps s)) = activeTransfers s"
  "sio_rooms (fst (disconnect_rooms c ps s)) = sio_rooms s"
  by (induction ps arbitrary: s) (simp_all add: split_beta)

lemma disconnect_transfer_frame [simp]:
  "rooms (fst (disconnect_transfer c tid s)) = rooms s"
  "sio_rooms (fst (disconnect_transfer c tid s)) = sio_rooms s"
  by (simp_all add: disconnect_transfer_def split: option.splits)

lemma disconnect_transfers_frame [simp]:
  "rooms (fst (disconnect_transfers c tids s)) = rooms s"
  "sio_rooms (fst (disconnect_transfers c tids s)) = sio_rooms s"
  by (induction tids arbitrary: s) (simp_all add: split_beta)

lemma disconnect_transfer_distinct:
  "distinct (map fst (activeTransfers s)) \<Longrightarrow>
     distinct (map fst (activeTransfers (fst (disconnect_transfer c tid s))))"
  by (simp add: disconnect_transfer_def distinct_delete split: option.splits)

lemma disconnect_transfer_filter:
  assumes "distinct (map fst (activeTransfers s))"
  shows "activeTransfers (fst (disconnect_transfer c tid s)) =
           filter (\<lambda>(k, t). \<not> (k = tid \<and> from_socket t = c)) (activeTransfers s)"
proof (cases "map_of (activeTransfers s) tid")
  case None
  then have "\<forall>x \<in> set (activeTransfers s). fst x \<noteq> tid"
    by (auto simp: map_of_eq_None_iff)
  then have "filter (\<lambda>(k, t). \<not> (k = tid \<and> from_socket t = c)) (activeTransfers s) =
               activeTransfers s"
    by (auto simp: filter_id_conv)
  with None show ?thesis by (simp add: disconnect_transfer_def)
next
  case (Some t)
  with assms have only: "\<forall>x \<in> set (activeTransfers s). fst x = tid \<longrightarrow> snd x = t"
    by (auto simp: map_of_eq_Some_iff dest: eq_key_imp_eq_value)
  show ?thesis
  proof (cases "from_socket t = c")
    case True
    with only have "filter (\<lambda>(k, t). \<not> (k = tid \<and> from_socket t = c)) (activeTransfers s) =
                      filter (\<lambda>(k, t). tid \<noteq> k) (activeTransfers s)"
      by (intro filter_cong) auto
    with Some True show ?thesis
      by (simp add: disconnect_transfer_def AList.delete_eq)
  next
    case False
    with only have "filter (\<lambda>(k, t). \<not> (k = tid \<and> from_socket t = c)) (activeTransfers s) =
                      activeTransfers s"
      by (auto simp: filter_id_conv)
    with Some False show ?thesis by (simp add: disconnect_transfer_def)
  qed
qed

lemma disconnect_transfers_filter:
  "distinct (map fst (activeTransfers s)) \<Longrightarrow>
     activeTransfers (fst (disconnect_transfers c tids s)) =
       filter (\<lambda>(k, t). \<not> (k \<in> set tids \<and> from_socket t = c)) (activeTransfers s)"
proof (induction tids arbitrary: s)
  case Nil
  show ?case by simp
next
  case (Cons tid tids)
  let ?s1 = "fst (disconnect_transfer c tid s)"
  from Cons.prems have d1: "distinct (map fst (activeTransfers ?s1))"
    by (rule disconnect_transfer_distinct)
  have "activeTransfers (fst (disconnect_transfers c (tid # tids) s)) =
          activeTransfers (fst (disconnect_transfers c tids ?s1))"
    by (simp add: split_beta)
  also have "\<dots> = filter (\<lambda>(k, t). \<not> (k \<in> set tids \<and> from_socket t = c)) (activeTransfers ?s1)"
    by (rule Cons.IH [OF d1])
  also have "\<dots> = filter (\<lambda>(k, t). \<not> (k \<in> set (tid # tids) \<and> from_socket t = c)) (activeTransfers s)"
    unfolding disconnect_transfer_filter [OF Cons.prems] filter_filter
    by (intro filter_cong) auto
  finally show ?case .
qed

lemma disconnect_transfer_lookup_other:
  "k \<noteq> tid \<Longrightarrow> map_of (activeTransfers (fst (disconnect_transfer c tid s))) k =
                     map_of (activeTransfers s) k"
  by (simp add: disconnect_transfer_def delete_conv' split: option.splits)

lemma disconnect_transfer_snd_cong:
  "map_of (activeTransfers s) k = map_of (activeTransfers t) k \<Longrightarrow>
     snd (disconnect_transfer c k s) = snd (disconnect_transfer c k t)"
  by (simp add: disconnect_transfer_def split: option.splits)

lemma disconnect_transfers_snd:
  "distinct tids \<Longrightarrow>
     snd (disconnect_transfers c tids s) =
       concat (map (\<lambda>k. snd (disconnect_transfer c k s)) tids)"
proof (induction tids arbitrary: s)
  case Nil
  show ?case by simp
next
  case (Cons tid tids)
  let ?s1 = "fst (disconnect_transfer c tid s)"
  have "snd (disconnect_transfer c k ?s1) = snd (disconnect_transfer c k s)" if "k \<in> set tids" for k
  proof -
    from that Cons.prems have "k \<noteq> tid" by auto
    then have "map_of (activeTransfers ?s1) k = map_of (activeTransfers s) k"
      by (rule disconnect_transfer_lookup_other)
    then show ?thesis by (rule disconnect_transfer_snd_cong)
  qed
  then have eq: "map (\<lambda>k. snd (disconnect_transfer c k ?s1)) tids =
             map (\<lambda>k. snd (disconnect_transfer c k s)) tids"
    by (intro map_cong refl)
  from Cons.prems have ih: "snd (disconnect_transfers c tids ?s1) =
      concat (map (\<lambda>k. snd (disconnect_transfer c k ?s1)) tids)"
    by (simp add: Cons.IH)
  have "snd (disconnect_transfers c (tid # tids) s) =
          snd (disconnect_transfer c tid s) @ snd (disconnect_transfers c tids ?s1)"
    by (simp add: split_beta)
  then show ?case
    unfolding ih eq by simp
qed

lemma cancelled_of_entries:
  assumes "distinct (map fst xs)" and "\<forall>(k, t) \<in> set xs. map_of (activeTransfers s) k = Some t"
  shows "concat (map (\<lambda>k. snd (disconnect_transfer c k s)) (map fst xs)) =
           map (\<lambda>(k, t). Emit (Group (pin t)) (TransferCancelled k))
             (filter (\<lambda>(k, t). from_socket t = c) xs)"
  using assms
proof (induction xs)
  case Nil
  show ?case by simp
next
  case (Cons x xs)
  obtain k t where x: "x = (k, t)" by (cases x)
  with Cons.prems have "map_of (activeTransfers s) k = Some t" by simp
  then have "snd (disconnect_transfer c k s) =
               (if from_socket t = c then [Emit (Group (pin t)) (TransferCancelled k)] else [])"
    by (simp add: disconnect_transfer_def)
  moreover from Cons have "concat (map (\<lambda>k. snd (disconnect_transfer c k s)) (map fst xs)) =
           map (\<lambda>(k, t). Emit (Group (pin t)) (TransferCancelled k))
             (filter (\<lambda>(k, t). from_socket t = c) xs)"
    by simp
  ultimately show ?case using x by simp
qed


lemma leave_room_absent: "map_of (rooms s) p = None \<Longrightarrow> leave_room c p s = (s, [])"
  by (simp add: leave_room_def)

lemma disconnect_lookup:
  "map_of (rooms (fst (disconnect c s))) p = map_of (rooms (fst (leave_room c p s))) p"
proof -
  let ?s0 = "transport_close c s"
  have same: "map_of (rooms ?s0) q = map_of (rooms s) q" for q
    by (simp add: transport_close_def)
  have "map_of (rooms (fst (disconnect c s))) p =
          map_of (rooms (fst (disconnect_rooms c (map fst (rooms ?s0)) ?s0))) p"
    by (simp add: disconnect_def Let_def split_beta)
  also have "\<dots> = (if p \<in> set (map fst (rooms ?s0))
                     then map_of (rooms (fst (leave_room c p ?s0))) p else map_of (rooms ?s0) p)"
    by (rule disconnect_rooms_lookup)
  also have "\<dots> = map_of (rooms (fst (leave_room c p ?s0))) p"
  proof (cases "p \<in> set (map fst (rooms ?s0))")
    case True
    then show ?thesis by simp
  next
    case False
    then have "map_of (rooms ?s0) p = None"
      by (simp add: map_of_eq_None_iff)
    with False show ?thesis by (simp add: leave_room_absent)
  qed
  also have "\<dots> = map_of (rooms (fst (leave_room c p s))) p"
    by (rule leave_room_lookup_cong [OF same])
  finally show ?thesis .
qed

lemma find_socket_listed:
  "c \<in> socketId ` set xs \<Longrightarrow> \<exists>q. find (\<lambda>q. socketId q = c) xs = Some q"
  using find_socket_None [of c xs] by (cases "find (\<lambda>q. socketId q = c) xs") auto

lemma leave_room_participants:
  assumes "map_of (rooms s) p = Some r" and "c \<in> socketId ` set (participants r)"
  shows "map_option participants (map_of (rooms (fst (leave_room c p s))) p) =
           (if filter (\<lambda>q. socketId q \<noteq> c) (participants r) = [] then None
            else Some (filter (\<lambda>q. socketId q \<noteq> c) (participants r)))"
proof -
  from find_socket_listed [OF assms(2)] obtain q where
    q: "find (\<lambda>q. socketId q = c) (participants r) = Some q" ..
  show ?thesis
  proof (cases "filter (\<lambda>x. socketId x \<noteq> c) (participants r) = []")
    case True
    with assms(1) q show ?thesis
      by (simp add: leave_room_def Let_def delete_conv')
  next
    case False
    with assms(1) q show ?thesis
      by (simp add: leave_room_def Let_def update_conv')
  qed
qed


subsection \<open>The second run, evaluated\<close>

lemma web_run: "\<not> isl (run web_events init)"
  by code_simp

lemma web_reached: "run web_events init = Inr (web_state, snd (projr (run web_events init)))"
  unfolding web_state_def by (rule run_Inr [OF web_run])

lemma web_rooms: "rooms web_state =
    [(''483920'', \<lparr>creator = ''web-api'', creatorUserId = None, participants = [],
                   uniqueUsers = {}, createdAt = 1\<rparr>),
     (''111111'', \<lparr>creator = ''A'', creatorUserId = Some ''u1'',
                   participants = [\<lparr>socketId = ''A'', userId = ''u1''\<rparr>],
                   uniqueUsers = {''u1''}, createdAt = 3\<rparr>)]"
  by code_simp

lemma unique_pin_finds:
  "\<exists>p \<in> set draws. map_of rs p = None \<Longrightarrow>
     \<exists>p. unique_pin rs draws = Some p \<and> p \<in> set draws \<and> map_of rs p = None"
  by (induction draws) auto

lemma create_room_returns:
  assumes "\<exists>p \<in> set draws. map_of (rooms s) p = None"
  shows "\<exists>s' p. create_room c uid draws now s = Inr (s', [Callback (Created p)]) \<and>
           p \<in> set draws \<and> map_of (rooms s) p = None \<and>
           map_option participants (map_of (rooms s') p) = Some [\<lparr>socketId = c, userId = uid\<rparr>]"
proof -
  from unique_pin_finds [OF assms] obtain p where
    "unique_pin (rooms s) draws = Some p" "p \<in> set draws" "map_of (rooms s) p = None"
    by blast
  then show ?thesis
    by (simp add: create_room_def update_conv')
qed

lemma http_post_room_returns:
  assumes "\<exists>p \<in> set draws. map_of (rooms s) p = None"
  shows "\<exists>s' p. http_post_room draws now now' s = Inr (s', [HttpJson p now']) \<and>
           p \<in> set draws \<and> map_of (rooms s) p = None \<and>
           map_option participants (map_of (rooms s') p) = Some []"
proof -
  from unique_pin_finds [OF assms] obtain p where
    "unique_pin (rooms s) draws = Some p" "p \<in> set draws" "map_of (rooms s) p = None"
    by blast
  then show ?thesis
    by (simp add: http_post_room_def update_conv')
qed

subsection \<open>Chunk arrays\<close>




lemma array_set_property: "4294967295 \<le> int i \<Longrightarrow> array_set xs i v = xs"
  by (simp add: array_set_def)








subsection \<open>Listed connections are in the transport group\<close>

lemma listed_okD:
  "listed_ok s \<Longrightarrow> map_of (rooms s) p = Some r \<Longrightarrow> x \<in> set (participants r)
     \<Longrightarrow> socketId x \<in> sio_rooms s p"
  unfolding listed_ok_def by blast

lemma listed_okI:
  assumes "\<And>p r x. map_of (rooms s) p = Some r \<Longrightarrow> x \<in> set (participants r)
             \<Longrightarrow> socketId x \<in> sio_rooms s p"
  shows "listed_ok s"
  unfolding listed_ok_def using assms by blast

lemma listed_ok_init: "listed_ok init"
  by (simp add: listed_ok_def init_def)

lemma leave_room_listed:
  assumes "map_of (rooms (fst (leave_room c p s))) p = Some r'"
  shows "\<exists>r. map_of (rooms s) p = Some r \<and> set (participants r') \<subseteq> set (participants r) \<and>
             c \<notin> socketId ` set (participants r')"
proof (cases "map_of (rooms s) p")
  case None
  with assms show ?thesis by (simp add: leave_room_def)
next
  case (Some r)
  note r = this
  show ?thesis
  proof (cases "find (\<lambda>q. socketId q = c) (participants r)")
    case None
    then have "c \<notin> socketId ` set (participants r)"
      by (simp add: find_socket_None)
    with None r assms show ?thesis by (simp add: leave_room_def)
  next
    case (Some x)
    show ?thesis
    proof (cases "filter (\<lambda>q. socketId q \<noteq> c) (participants r) = []")
      case True
      with r Some assms show ?thesis
        by (simp add: leave_room_def Let_def delete_conv')
    next
      case False
      with r Some assms show ?thesis
        by (auto simp: leave_room_def Let_def update_conv')
    qed
  qed
qed

lemma leave_room_sio:
  "x \<in> sio_rooms s q \<Longrightarrow> x \<noteq> c \<or> q \<noteq> p \<Longrightarrow> x \<in> sio_rooms (fst (leave_room c p s)) q"
  by (auto simp: leave_room_def Let_def split: option.splits)

lemma listed_ok_leave_room:
  assumes "listed_ok s"
  shows "listed_ok (fst (leave_room c p s))"
proof (rule listed_okI)
  fix q r' x
  assume r': "map_of (rooms (fst (leave_room c p s))) q = Some r'" and x: "x \<in> set (participants r')"
  show "socketId x \<in> sio_rooms (fst (leave_room c p s)) q"
  proof (cases "q = p")
    case True
    from leave_room_listed [OF r' [unfolded True]] obtain r where
      r: "map_of (rooms s) p = Some r" and sub: "set (participants r') \<subseteq> set (participants r)"
      and c: "c \<notin> socketId ` set (participants r')"
      by blast
    from sub x have "x \<in> set (participants r)" by blast
    with assms r have "socketId x \<in> sio_rooms s p" by (rule listed_okD)
    moreover from c x have "socketId x \<noteq> c" by blast
    ultimately show ?thesis
      unfolding True by (simp add: leave_room_sio)
  next
    case False
    with r' have "map_of (rooms s) q = Some r'"
      by (simp add: leave_room_lookup_other)
    with assms have "socketId x \<in> sio_rooms s q"
      using x by (rule listed_okD)
    with False show ?thesis
      by (simp add: leave_room_sio)
  qed
qed

lemma disconnect_sio: "sio_rooms (fst (disconnect c s)) = (\<lambda>g. sio_rooms s g - {c})"
  by (simp add: disconnect_def Let_def split_beta transport_close_def)

lemma listed_ok_disconnect:
  assumes "listed_ok s"
  shows "listed_ok (fst (disconnect c s))"
proof (rule listed_okI)
  fix p r' x
  assume "map_of (rooms (fst (disconnect c s))) p = Some r'" and x: "x \<in> set (participants r')"
  then have "map_of (rooms (fst (leave_room c p s))) p = Some r'"
    by (simp add: disconnect_lookup)
  from leave_room_listed [OF this] obtain r where
    r: "map_of (rooms s) p = Some r" and sub: "set (participants r') \<subseteq> set (participants r)"
    and c: "c \<notin> socketId ` set (participants r')"
    by blast
  from sub x have "x \<in> set (participants r)" by blast
  with assms r have "socketId x \<in> sio_rooms s p" by (rule listed_okD)
  moreover from c x have "socketId x \<noteq> c" by blast
  ultimately show "socketId x \<in> sio_rooms (fst (disconnect c s)) p"
    by (simp add: disconnect_sio)
qed

lemma listed_ok_grow:
  assumes ok: "listed_ok s"
    and rooms: "\<And>p r. map_of (rooms s') p = Some r \<Longrightarrow>
                 map_of (rooms s) p = Some r \<or> socketId ` set (participants r) \<subseteq> sio_rooms s' p"
    and sio: "\<And>p. sio_rooms s p \<subseteq> sio_rooms s' p"
  shows "listed_ok s'"
proof (rule listed_okI)
  fix p r x
  assume r: "map_of (rooms s') p = Some r" and x: "x \<in> set (participants r)"
  from rooms [OF r] show "socketId x \<in> sio_rooms s' p"
  proof
    assume "map_of (rooms s) p = Some r"
    with ok have "socketId x \<in> sio_rooms s p"
      using x by (rule listed_okD)
    with sio [of p] show ?thesis by blast
  next
    assume "socketId ` set (participants r) \<subseteq> sio_rooms s' p"
    with x show ?thesis by blast
  qed
qed

lemma listed_ok_connection: "listed_ok s \<Longrightarrow> listed_ok (connection c recovered s)"
  by (erule listed_ok_grow) (auto simp: connection_def)

lemma listed_ok_join_room:
  assumes "listed_ok s"
  shows "listed_ok (fst (join_room c p uid s))"
proof (cases "map_of (rooms s) p")
  case None
  with assms show ?thesis by (simp add: join_room_def)
next
  case (Some r)
  note r = this
  show ?thesis
  proof (cases "find (\<lambda>q. socketId q = c) (participants r)")
    case (Some q)
    with r assms show ?thesis by (simp add: join_room_def)
  next
    case None
    from assms r have sub: "\<And>x. x \<in> set (participants r) \<Longrightarrow> socketId x \<in> sio_rooms s p"
      by (rule listed_okD)
    from assms show ?thesis
    proof (rule listed_ok_grow)
      fix q r'
      assume "map_of (rooms (fst (join_room c p uid s))) q = Some r'"
      with r None sub
      show "map_of (rooms s) q = Some r' \<or>
            socketId ` set (participants r') \<subseteq> sio_rooms (fst (join_room c p uid s)) q"
        by (auto simp: join_room_def Let_def update_conv' split: if_splits)
    next
      fix q
      from r None show "sio_rooms s q \<subseteq> sio_rooms (fst (join_room c p uid s)) q"
        by (auto simp: join_room_def Let_def)
    qed
  qed
qed

lemma listed_ok_create_room:
  assumes "listed_ok s" and "create_room c uid draws now s = Inr (s', out)"
  shows "listed_ok s'"
proof (cases "unique_pin (rooms s) draws")
  case None
  with assms show ?thesis by (simp add: create_room_def)
next
  case (Some p)
  from assms(1) show ?thesis
  proof (rule listed_ok_grow)
    fix q r'
    assume "map_of (rooms s') q = Some r'"
    with Some assms(2)
    show "map_of (rooms s) q = Some r' \<or> socketId ` set (participants r') \<subseteq> sio_rooms s' q"
      by (auto simp: create_room_def update_conv' split: if_splits)
  next
    fix q
    from Some assms(2) show "sio_rooms s q \<subseteq> sio_rooms s' q"
      by (auto simp: create_room_def)
  qed
qed

lemma listed_ok_http_post_room:
  assumes "listed_ok s" and "http_post_room draws now now' s = Inr (s', out)"
  shows "listed_ok s'"
proof (cases "unique_pin (rooms s) draws")
  case None
  with assms show ?thesis by (simp add: http_post_room_def)
next
  case (Some p)
  from assms(1) show ?thesis
  proof (rule listed_ok_grow)
    fix q r'
    assume "map_of (rooms s') q = Some r'"
    with Some assms(2)
    show "map_of (rooms s) q = Some r' \<or> socketId ` set (participants r') \<subseteq> sio_rooms s' q"
      by (auto simp: http_post_room_def update_conv' split: if_splits)
  next
    fix q
    from Some assms(2) show "sio_rooms s q \<subseteq> sio_rooms s' q"
      by (auto simp: http_post_room_def)
  qed
qed

lemma listed_ok_cleanup_at: "listed_ok s \<Longrightarrow> listed_ok (cleanupExpiredRooms_at now p s)"
  by (simp add: listed_ok_def cleanupExpiredRooms_at_def delete_conv' split: option.splits)

lemma listed_ok_cleanup_fold:
  "listed_ok s \<Longrightarrow> listed_ok (fold (cleanupExpiredRooms_at now) ps s)"
  by (induction ps arbitrary: s) (simp_all add: listed_ok_cleanup_at)

lemma listed_ok_transfers [simp]: "listed_ok (s\<lparr>activeTransfers := ts\<rparr>) = listed_ok s"
  by (simp add: listed_ok_def)

lemma sio_file_chunk: "file_chunk c tid i d l s = Inr (s', out) \<Longrightarrow> sio_rooms s' = sio_rooms s"
  by (auto simp: file_chunk_def Let_def split: option.splits if_splits)

lemma listed_ok_file_chunk:
  "listed_ok s \<Longrightarrow> file_chunk c tid i d l s = Inr (s', out) \<Longrightarrow> listed_ok s'"
  by (simp add: listed_ok_def rooms_file_chunk sio_file_chunk)

lemma listed_ok_step:
  assumes "listed_ok s" and "step e s = Inr (s', out)"
  shows "listed_ok s'"
proof (cases e)
  case (Connection c recovered)
  with assms show ?thesis by (auto simp: listed_ok_connection)
next
  case (CreateRoom c uid draws now)
  with assms show ?thesis by (auto dest: listed_ok_create_room)
next
  case (JoinRoom c p uid)
  with assms listed_ok_join_room [of s c p uid] show ?thesis by auto
next
  case (LeaveRoom c p)
  with assms listed_ok_leave_room [of s c p] show ?thesis by auto
next
  case (InitiateFileTransfer c p fname fsize ftype now now')
  with assms show ?thesis
    by (auto simp: initiate_file_transfer_def Let_def split: option.splits if_splits)
next
  case (FileChunk c tid i d l)
  with assms show ?thesis by (auto dest: listed_ok_file_chunk)
next
  case (RespondToFile c tid a)
  with assms show ?thesis by (auto simp: respond_to_file_def split: option.splits if_splits)
next
  case (GetRoomInfo c p)
  with assms show ?thesis by (auto simp: get_room_info_def split: option.splits)
next
  case (Disconnect c)
  with assms listed_ok_disconnect [of s c] show ?thesis by auto
next
  case (HttpPostRoom draws now now')
  with assms show ?thesis by (auto dest: listed_ok_http_post_room)
next
  case (CleanupExpiredRooms now)
  with assms show ?thesis by (auto simp: cleanupExpiredRooms_def listed_ok_cleanup_fold)
qed

lemma listed_ok_run: "listed_ok s \<Longrightarrow> run es s = Inr (s', out) \<Longrightarrow> listed_ok s'"
proof (induction es arbitrary: s out)
  case Nil
  then show ?case by simp
next
  case (Cons e es)
  from Cons.prems(2) obtain s1 out1 out2 where
    e: "step e s = Inr (s1, out1)" and es: "run es s1 = Inr (s', out2)"
    by (auto split: sum.splits prod.splits)
  from Cons.prems(1) e have "listed_ok s1"
    by (rule listed_ok_step)
  then show ?case using es by (rule Cons.IH)
qed

lemma late_run: "\<not> isl (run late_events init)"
  by code_simp

lemma late_reached: "run late_events init = Inr (late_state, snd (projr (run late_events init)))"
  unfolding late_state_def by (rule run_Inr [OF late_run])

subsection \<open>The code keeps the membership of the specification\<close>














lemma spec_sweep_again [simp]: "spec_sweep now (spec_sweep now room) = spec_sweep now room"
  by (auto simp: spec_sweep_def split: option.splits)








section \<open>The claims\<close>

text \<open>
  \<^bold>\<open>C4.\<close> A \<^verbatim>\<open>file_chunk\<close> call that names an unknown transfer id, or a transfer whose
  registered sender is another connection, changes nothing: the state after the call is the
  state before it (so the transfer's chunks, its total and its existence are as they were),
  and the only thing sent is \<^verbatim>\<open>transfer_error\<close> with the message "Invalid transfer" to
  the caller; no acknowledgement callback is invoked.
\<close>

theorem file_chunk_rejects_non_sender:
  assumes "map_of (activeTransfers s) tid = None \<or>
           (\<exists>t. map_of (activeTransfers s) tid = Some t \<and> from_socket t \<noteq> c)"
  shows "file_chunk c tid i d l s =
           Inr (s, [Emit (Socket c) (TransferError tid ''Invalid transfer'')])"
  using assms by (auto simp: file_chunk_def)

theorem file_chunk_rejects_non_sender_witness:
  "file_chunk ''C'' ''A_5'' 0 [1, 2] True demo_state =
     Inr (demo_state, [Emit (Socket ''C'') (TransferError ''A_5'' ''Invalid transfer'')]) \<and>
   file_chunk ''A'' ''A_6'' 0 [1, 2] True demo_state =
     Inr (demo_state, [Emit (Socket ''A'') (TransferError ''A_6'' ''Invalid transfer'')])"
proof -
  have known: "\<exists>t. map_of (activeTransfers demo_state) ''A_5'' = Some t \<and> from_socket t \<noteq> ''C''"
    by (simp add: demo_transfer)
  have unknown: "map_of (activeTransfers demo_state) ''A_6'' = None"
    by (simp add: demo_transfers)
  from known unknown show ?thesis
    using file_chunk_rejects_non_sender [of demo_state "''A_5''" "''C''" 0 "[1, 2]" True]
      file_chunk_rejects_non_sender [of demo_state "''A_6''" "''A''" 0 "[1, 2]" True]
    by blast
qed

text \<open>
  \<^bold>\<open>C9.\<close> \<^verbatim>\<open>leave_room\<close> is idempotent: in the state that a first
  \<^verbatim>\<open>leave_room\<close> of a connection from a room leaves behind, a second one with the same
  arguments changes nothing and sends nothing, whatever the state, the PIN and the
  connection are.
\<close>

theorem leave_room_idempotent:
  "leave_room c p (fst (leave_room c p s)) = (fst (leave_room c p s), [])"
  by (simp add: leave_room_def Let_def update_conv' delete_conv'
      split: option.splits)

text \<open>
  \<^bold>\<open>C7.\<close> For an existing transfer, \<^verbatim>\<open>respond_to_file\<close> with \<open>accept = false\<close>
  sends \<^verbatim>\<open>transfer_rejected\<close> with the transfer id and the responder's connection id to
  the group named by the sender's connection id (\<^verbatim>\<open>io.to(transfer.from)\<close>), acknowledges
  success, and leaves the whole state, so also the transfer record, as it was. For an
  unknown transfer id the acknowledgement is the error "Transfer not found" and nothing
  changes.
\<close>

theorem respond_to_file_reject_keeps_transfer:
  "(map_of (activeTransfers s) tid = Some t \<longrightarrow>
      respond_to_file c tid False s =
        (s, [Emit (Group (from_socket t)) (TransferRejected tid c), Callback Success])) \<and>
   (map_of (activeTransfers s) tid = None \<longrightarrow>
      respond_to_file c tid accept s = (s, [Callback (Failure ''Transfer not found'')]))"
  by (simp add: respond_to_file_def)

theorem respond_to_file_reject_keeps_transfer_witness:
  "respond_to_file ''C'' ''A_5'' False demo_state =
     (demo_state, [Emit (Group ''A'') (TransferRejected ''A_5'' ''C''), Callback Success]) \<and>
   map_of (activeTransfers (fst (respond_to_file ''C'' ''A_5'' False demo_state))) ''A_5'' =
     map_of (activeTransfers demo_state) ''A_5'' \<and>
   respond_to_file ''C'' ''A_6'' False demo_state =
     (demo_state, [Callback (Failure ''Transfer not found'')])"
proof -
  have unknown: "map_of (activeTransfers demo_state) ''A_6'' = None"
    by (simp add: demo_transfers)
  from demo_transfer unknown show ?thesis
    using respond_to_file_reject_keeps_transfer [of demo_state "''A_5''" _ "''C''"]
      respond_to_file_reject_keeps_transfer [of demo_state "''A_6''" _ "''C''" False]
    by simp
qed

text \<open>
  \<^bold>\<open>C10.\<close> \<^verbatim>\<open>respond_to_file\<close> does not check who responds: for an existing
  transfer and any connection \<open>c\<close> at all, the call succeeds; with \<open>accept = true\<close> it
  sends \<^verbatim>\<open>download_ready\<close> to \<open>c\<close>, with \<open>accept = false\<close> it sends
  \<^verbatim>\<open>transfer_rejected\<close> naming \<open>c\<close> to the sender.
\<close>

theorem respond_to_file_any_connection:
  assumes "map_of (activeTransfers s) tid = Some t"
  shows "respond_to_file c tid True s =
           (s, [Emit (Socket c) (DownloadReady tid), Callback Success]) \<and>
         respond_to_file c tid False s =
           (s, [Emit (Group (from_socket t)) (TransferRejected tid c), Callback Success])"
  using assms by (simp add: respond_to_file_def)

theorem respond_to_file_any_connection_witness:
  "''B'' \<notin> set [''C''] \<and> ''B'' \<notin> sio_rooms demo_state ''483920'' \<and>
   respond_to_file ''B'' ''A_5'' True demo_state =
     (demo_state, [Emit (Socket ''B'') (DownloadReady ''A_5''), Callback Success]) \<and>
   respond_to_file ''B'' ''A_5'' False demo_state =
     (demo_state, [Emit (Group ''A'') (TransferRejected ''A_5'' ''B''), Callback Success]) \<and>
   respond_to_file ''A'' ''A_5'' True demo_state =
     (demo_state, [Emit (Socket ''A'') (DownloadReady ''A_5''), Callback Success])"
  using respond_to_file_any_connection [OF demo_transfer, of "''B''"]
    respond_to_file_any_connection [OF demo_transfer, of "''A''"]
  by (simp add: demo_group)




text \<open>
  \<^bold>\<open>C8.\<close> In every reachable state, \<^verbatim>\<open>join_room\<close> answers "Invalid PIN" exactly when
  no room has the PIN, and "Already in room" exactly when the room exists and lists the
  calling connection; in both cases the state is unchanged. Otherwise, whatever the user id
  is (also one that a listed connection already carries), the pair of connection and user is
  appended, the others are told, and the acknowledgement carries the number of distinct user
  ids now listed and whether the caller is the room's creator.
\<close>

theorem join_room_outcomes:
  assumes "run evs init = Inr (s, outs)"
  shows "(Callback (Failure ''Invalid PIN'') \<in> set (snd (join_room c p uid s))
            \<longleftrightarrow> map_of (rooms s) p = None) \<and>
         (Callback (Failure ''Already in room'') \<in> set (snd (join_room c p uid s))
            \<longleftrightarrow> (\<exists>r. map_of (rooms s) p = Some r \<and> c \<in> socketId ` set (participants r))) \<and>
         (map_of (rooms s) p = None \<longrightarrow>
            join_room c p uid s = (s, [Callback (Failure ''Invalid PIN'')])) \<and>
         (\<forall>r. map_of (rooms s) p = Some r \<longrightarrow>
            (c \<in> socketId ` set (participants r) \<longrightarrow>
               join_room c p uid s = (s, [Callback (Failure ''Already in room'')])) \<and>
            (c \<notin> socketId ` set (participants r) \<longrightarrow>
               join_room c p uid s =
                 (s\<lparr>rooms := AList.update p
                       (r\<lparr>participants := participants r @ [\<lparr>socketId = c, userId = uid\<rparr>],
                          uniqueUsers := insert uid (uniqueUsers r)\<rparr>) (rooms s),
                     sio_rooms := (sio_rooms s)(p := insert c (sio_rooms s p))\<rparr>,
                  [Emit (Except p c) (UserJoined c uid),
                   Callback (Joined
                     (card (userId ` set (participants r @ [\<lparr>socketId = c, userId = uid\<rparr>])))
                     (creator r = c))])))"
proof -
  have ok: "uniqueUsers r = userId ` set (participants r)" if "map_of (rooms s) p = Some r" for r
  proof -
    from state_ok_run [OF state_ok_init assms, of True] have "state_ok True s"
      by simp
    with that have "room_ok True r"
      by (auto simp: state_ok_def dest: rooms_allD)
    then show ?thesis by (simp add: room_ok_def)
  qed
  show ?thesis
  proof (cases "map_of (rooms s) p")
    case None
    then show ?thesis by (simp add: join_room_def)
  next
    case (Some r)
    note r = this
    show ?thesis
    proof (cases "find (\<lambda>q. socketId q = c) (participants r)")
      case None
      then have "c \<notin> socketId ` set (participants r)"
        by (simp add: find_socket_None)
      with r None ok [OF r] show ?thesis
        by (simp add: join_room_def Let_def)
    next
      case (Some q)
      then have "c \<in> socketId ` set (participants r)"
        using find_socket_None [of c "participants r"] by simp
      with r Some show ?thesis
        by (simp add: join_room_def)
    qed
  qed
qed

theorem join_room_outcomes_witness:
  "join_room ''D'' ''000000'' ''u2'' demo_state = (demo_state, [Callback (Failure ''Invalid PIN'')]) \<and>
   join_room ''C'' ''483920'' ''u9'' demo_state = (demo_state, [Callback (Failure ''Already in room'')]) \<and>
   snd (join_room ''D'' ''483920'' ''u2'' demo_state) =
     [Emit (Except ''483920'' ''D'') (UserJoined ''D'' ''u2''), Callback (Joined 2 False)]"
proof -
  have unknown: "map_of (rooms demo_state) ''000000'' = None"
    by (simp add: demo_rooms)
  note known = demo_room
  from join_room_outcomes [OF demo_reached, of "''D''" "''000000''" "''u2''"] unknown
  have 1: "join_room ''D'' ''000000'' ''u2'' demo_state = (demo_state, [Callback (Failure ''Invalid PIN'')])"
    by blast
  from join_room_outcomes [OF demo_reached, of "''C''" "''483920''" "''u9''"] known
  have 2: "join_room ''C'' ''483920'' ''u9'' demo_state = (demo_state, [Callback (Failure ''Already in room'')])"
    by simp
  from join_room_outcomes [OF demo_reached, of "''D''" "''483920''" "''u2''"] known
  have 3: "snd (join_room ''D'' ''483920'' ''u2'' demo_state) =
     [Emit (Except ''483920'' ''D'') (UserJoined ''D'' ''u2''), Callback (Joined 2 False)]"
    by (simp add: card_insert_if)
  from 1 2 3 show ?thesis by simp
qed


text \<open>
  \<^bold>\<open>C6.\<close> In every reachable state, the \<^verbatim>\<open>disconnect\<close> handler of connection \<open>c\<close>
  sends, for every room of the registry in registry order, what \<^verbatim>\<open>leave_room\<close> would send
  for \<open>c\<close> there, and only after all of these a \<^verbatim>\<open>transfer_cancelled\<close> to the group of
  the transfer's PIN for every transfer whose sender is \<open>c\<close>. Afterwards every room is as
  \<^verbatim>\<open>leave_room\<close> would have left it, the transfers of \<open>c\<close> are gone and the others are
  untouched, and \<open>c\<close> is in no transport group.
\<close>

theorem disconnect_rooms_then_transfers:
  assumes "run evs init = Inr (s, outs)"
  shows "snd (disconnect c s) =
           concat (map (\<lambda>p. snd (leave_room c p s)) (map fst (rooms s))) @
           map (\<lambda>(tid, t). Emit (Group (pin t)) (TransferCancelled tid))
             (filter (\<lambda>(tid, t). from_socket t = c) (activeTransfers s)) \<and>
         (\<forall>p. map_of (rooms (fst (disconnect c s))) p =
                map_of (rooms (fst (leave_room c p s))) p) \<and>
         activeTransfers (fst (disconnect c s)) =
           filter (\<lambda>(tid, t). from_socket t \<noteq> c) (activeTransfers s) \<and>
         sio_rooms (fst (disconnect c s)) = (\<lambda>g. sio_rooms s g - {c})"
proof -
  let ?s0 = "transport_close c s"
  let ?s1 = "fst (disconnect_rooms c (map fst (rooms ?s0)) ?s0)"
  from state_ok_run [OF state_ok_init assms, of True] have ok: "state_ok True s"
    by simp
  then have dr: "distinct (map fst (rooms s))" and dt: "distinct (map fst (activeTransfers s))"
    by (simp_all add: state_ok_def)
  have s0: "rooms ?s0 = rooms s" "activeTransfers ?s0 = activeTransfers s"
    by (simp_all add: transport_close_def)
  have t1: "activeTransfers ?s1 = activeTransfers s"
    by (simp add: s0)
  have out1: "snd (disconnect_rooms c (map fst (rooms ?s0)) ?s0) =
                concat (map (\<lambda>p. snd (leave_room c p s)) (map fst (rooms s)))"
  proof -
    have "snd (leave_room c p ?s0) = snd (leave_room c p s)" for p
      by (rule leave_room_snd_cong) (simp add: s0)
    with disconnect_rooms_snd [of "map fst (rooms ?s0)" c ?s0] dr show ?thesis
      by (simp add: s0)
  qed
  have out2: "snd (disconnect_transfers c (map fst (activeTransfers ?s1)) ?s1) =
                map (\<lambda>(tid, t). Emit (Group (pin t)) (TransferCancelled tid))
                  (filter (\<lambda>(tid, t). from_socket t = c) (activeTransfers s))"
  proof -
    have "snd (disconnect_transfers c (map fst (activeTransfers s)) ?s1) =
            concat (map (\<lambda>k. snd (disconnect_transfer c k ?s1)) (map fst (activeTransfers s)))"
      using dt by (rule disconnect_transfers_snd)
    also have "\<dots> = map (\<lambda>(tid, t). Emit (Group (pin t)) (TransferCancelled tid))
                  (filter (\<lambda>(tid, t). from_socket t = c) (activeTransfers s))"
    proof (rule cancelled_of_entries [OF dt])
      show "\<forall>(k, t) \<in> set (activeTransfers s). map_of (activeTransfers ?s1) k = Some t"
        unfolding t1 using dt by (auto simp: map_of_eq_Some_iff)
    qed
    finally show ?thesis unfolding t1 .
  qed
  have tr: "activeTransfers (fst (disconnect_transfers c (map fst (activeTransfers ?s1)) ?s1)) =
              filter (\<lambda>(tid, t). from_socket t \<noteq> c) (activeTransfers s)"
  proof -
    from dt have "distinct (map fst (activeTransfers ?s1))"
      unfolding t1 .
    from disconnect_transfers_filter [OF this, of c "map fst (activeTransfers ?s1)"]
    have "activeTransfers (fst (disconnect_transfers c (map fst (activeTransfers ?s1)) ?s1)) =
            filter (\<lambda>(k, t). \<not> (k \<in> set (map fst (activeTransfers s)) \<and> from_socket t = c))
              (activeTransfers s)"
      unfolding t1 .
    also have "\<dots> = filter (\<lambda>(tid, t). from_socket t \<noteq> c) (activeTransfers s)"
      by (intro filter_cong) force+
    finally show ?thesis .
  qed
  have "snd (disconnect c s) =
          snd (disconnect_rooms c (map fst (rooms ?s0)) ?s0) @
          snd (disconnect_transfers c (map fst (activeTransfers ?s1)) ?s1)"
    by (simp add: disconnect_def Let_def split_beta)
  moreover have "activeTransfers (fst (disconnect c s)) =
          activeTransfers (fst (disconnect_transfers c (map fst (activeTransfers ?s1)) ?s1))"
    by (simp add: disconnect_def Let_def split_beta)
  moreover have "sio_rooms (fst (disconnect c s)) = (\<lambda>g. sio_rooms s g - {c})"
    by (simp add: disconnect_def Let_def split_beta transport_close_def)
  ultimately show ?thesis
    unfolding out1 out2 tr by (simp add: disconnect_lookup)
qed

theorem disconnect_rooms_then_transfers_witness:
  "snd (disconnect ''A'' demo_state) =
     [Emit (Except ''483920'' ''A'') (UserLeft ''A'' ''u1''),
      Emit (Group ''483920'') (TransferCancelled ''A_5'')] \<and>
   activeTransfers (fst (disconnect ''A'' demo_state)) = []"
  using disconnect_rooms_then_transfers [OF demo_reached, of "''A''"]
  by (simp add: demo_rooms demo_transfers leave_room_def Let_def)



text \<open>
  \<^bold>\<open>C2\<close> fails as stated: \<^verbatim>\<open>POST /api/room\<close> puts a room without participants
  into the registry.
\<close>

theorem http_post_room_creates_empty_room:
  "\<not> isl (run [HttpPostRoom [''483920''] 1 2] init) \<and>
   map_option participants
     (map_of (rooms (fst (projr (run [HttpPostRoom [''483920''] 1 2] init)))) ''483920'') = Some []"
  by (simp add: http_post_room_def init_def)


text \<open>
  \<^bold>\<open>C2\<close>, amended. In every reachable state a room without participants has the creator
  \<^verbatim>\<open>"web-api"\<close> and the run contains a \<^verbatim>\<open>POST /api/room\<close>. When \<^verbatim>\<open>leave_room\<close> or
  \<^verbatim>\<open>disconnect\<close> meets a room that lists the connection, the connection's entries are
  removed, and in the same reaction the room is deleted if no entry is left and kept with
  the remaining entries otherwise. Given a free PIN among the draws, \<^verbatim>\<open>create_room\<close>
  returns and has made its room, at a free PIN, with exactly one participant, the caller;
  \<^verbatim>\<open>POST /api/room\<close> returns and has made its room with no participant.
\<close>

theorem empty_rooms_only_from_http_post:
  assumes "run evs init = Inr (s, outs)"
  shows "(\<forall>p r. map_of (rooms s) p = Some r \<and> participants r = [] \<longrightarrow>
            creator r = ''web-api'' \<and> (\<exists>e \<in> set evs. is_http e)) \<and>
         (\<forall>p r. map_of (rooms s) p = Some r \<and> c \<in> socketId ` set (participants r) \<longrightarrow>
            map_option participants (map_of (rooms (fst (leave_room c p s))) p) =
              (if filter (\<lambda>q. socketId q \<noteq> c) (participants r) = [] then None
               else Some (filter (\<lambda>q. socketId q \<noteq> c) (participants r)))) \<and>
         (\<forall>p r. map_of (rooms s) p = Some r \<and> c \<in> socketId ` set (participants r) \<longrightarrow>
            map_option participants (map_of (rooms (fst (disconnect c s))) p) =
              (if filter (\<lambda>q. socketId q \<noteq> c) (participants r) = [] then None
               else Some (filter (\<lambda>q. socketId q \<noteq> c) (participants r)))) \<and>
         ((\<exists>p \<in> set draws. map_of (rooms s) p = None) \<longrightarrow>
            (\<exists>s' p. create_room c uid draws now s = Inr (s', [Callback (Created p)]) \<and>
               p \<in> set draws \<and> map_of (rooms s) p = None \<and>
               map_option participants (map_of (rooms s') p) =
                 Some [\<lparr>socketId = c, userId = uid\<rparr>]) \<and>
            (\<exists>s' p. http_post_room draws now now' s = Inr (s', [HttpJson p now']) \<and>
               p \<in> set draws \<and> map_of (rooms s) p = None \<and>
               map_option participants (map_of (rooms s') p) = Some []))"
proof -
  have empty: "creator r = ''web-api'' \<and> (\<exists>e \<in> set evs. is_http e)"
    if r: "map_of (rooms s) p = Some r" and e: "participants r = []" for p r
  proof -
    from state_ok_run [OF state_ok_init assms, of True] have "state_ok True s"
      by simp
    with r have "room_ok True r"
      by (auto simp: state_ok_def dest: rooms_allD)
    with e have web: "creator r = ''web-api''"
      by (simp add: room_ok_def)
    have "\<exists>e \<in> set evs. is_http e"
    proof (rule ccontr)
      assume "\<not> (\<exists>e \<in> set evs. is_http e)"
      with state_ok_run [OF state_ok_init assms, of False] have "state_ok False s"
        by simp
      with r have "room_ok False r"
        by (auto simp: state_ok_def dest: rooms_allD)
      with e show False by (simp add: room_ok_def)
    qed
    with web show ?thesis ..
  qed
  have left: "map_option participants (map_of (rooms (fst (leave_room c p s))) p) =
              (if filter (\<lambda>q. socketId q \<noteq> c) (participants r) = [] then None
               else Some (filter (\<lambda>q. socketId q \<noteq> c) (participants r)))"
    if "map_of (rooms s) p = Some r" "c \<in> socketId ` set (participants r)" for p r
    using that by (rule leave_room_participants)
  have gone: "map_option participants (map_of (rooms (fst (disconnect c s))) p) =
              (if filter (\<lambda>q. socketId q \<noteq> c) (participants r) = [] then None
               else Some (filter (\<lambda>q. socketId q \<noteq> c) (participants r)))"
    if "map_of (rooms s) p = Some r" "c \<in> socketId ` set (participants r)" for p r
    using that unfolding disconnect_lookup by (rule leave_room_participants)
  from empty left gone
    create_room_returns [of draws s c uid now] http_post_room_returns [of draws s now now']
  show ?thesis
    by blast
qed

theorem empty_rooms_only_from_http_post_witness:
  "creator (the (map_of (rooms web_state) ''483920'')) = ''web-api'' \<and>
   participants (the (map_of (rooms web_state) ''483920'')) = [] \<and>
   (\<exists>e \<in> set web_events. is_http e) \<and>
   map_of (rooms (fst (leave_room ''A'' ''111111'' web_state))) ''111111'' = None \<and>
   map_of (rooms (fst (disconnect ''A'' web_state))) ''111111'' = None \<and>
   map_option participants (map_of (rooms (fst (leave_room ''C'' ''483920'' demo_state))) ''483920'') =
     Some [\<lparr>socketId = ''A'', userId = ''u1''\<rparr>] \<and>
   map_option participants (map_of (rooms (fst (disconnect ''C'' demo_state))) ''483920'') =
     Some [\<lparr>socketId = ''A'', userId = ''u1''\<rparr>] \<and>
   (\<exists>s' p. create_room ''B'' ''u2'' [''483920'', ''222222''] 4 web_state =
              Inr (s', [Callback (Created p)]) \<and>
            map_option participants (map_of (rooms s') p) =
              Some [\<lparr>socketId = ''B'', userId = ''u2''\<rparr>]) \<and>
   (\<exists>s' p. http_post_room [''483920'', ''222222''] 4 5 web_state = Inr (s', [HttpJson p 5]) \<and>
            map_option participants (map_of (rooms s') p) = Some [])"
proof -
  have w: "map_of (rooms web_state) ''483920'' =
      Some \<lparr>creator = ''web-api'', creatorUserId = None, participants = [],
            uniqueUsers = {}, createdAt = 1\<rparr>"
    by (simp add: web_rooms)
  have e: "participants \<lparr>creator = ''web-api'', creatorUserId = None, participants = [],
            uniqueUsers = {}, createdAt = 1\<rparr> = []"
    by simp
  have solo: "map_of (rooms web_state) ''111111'' =
      Some \<lparr>creator = ''A'', creatorUserId = Some ''u1'',
            participants = [\<lparr>socketId = ''A'', userId = ''u1''\<rparr>],
            uniqueUsers = {''u1''}, createdAt = 3\<rparr>"
    by (simp add: web_rooms)
  have a: "''A'' \<in> socketId ` set (participants \<lparr>creator = ''A'', creatorUserId = Some ''u1'',
            participants = [\<lparr>socketId = ''A'', userId = ''u1''\<rparr>],
            uniqueUsers = {''u1''}, createdAt = 3\<rparr>)"
    by simp
  have c: "''C'' \<in> socketId ` set (participants \<lparr>creator = ''A'', creatorUserId = Some ''u1'',
              participants =
                [\<lparr>socketId = ''A'', userId = ''u1''\<rparr>,
                 \<lparr>socketId = ''C'', userId = ''u2''\<rparr>],
              uniqueUsers = {''u1'', ''u2''}, createdAt = 0\<rparr>)"
    by simp
  have free: "\<exists>p \<in> set [''483920'', ''222222'']. map_of (rooms web_state) p = None"
    by (simp add: web_rooms)
  note web = empty_rooms_only_from_http_post [OF web_reached, where c = "''A''"]
  note new = empty_rooms_only_from_http_post [OF web_reached, where c = "''B''" and uid = "''u2''"
      and draws = "[''483920'', ''222222'']" and now = 4 and now' = 5]
  note demo = empty_rooms_only_from_http_post [OF demo_reached, where c = "''C''"]
  from web [THEN conjunct1, rule_format, OF conjI [OF w e]]
  have 1: "creator (the (map_of (rooms web_state) ''483920'')) = ''web-api'' \<and>
        participants (the (map_of (rooms web_state) ''483920'')) = [] \<and>
        (\<exists>e \<in> set web_events. is_http e)"
    by (simp add: w)
  from web [THEN conjunct2, THEN conjunct1, rule_format, OF conjI [OF solo a]]
  have 2: "map_of (rooms (fst (leave_room ''A'' ''111111'' web_state))) ''111111'' = None"
    by simp
  from web [THEN conjunct2, THEN conjunct2, THEN conjunct1, rule_format, OF conjI [OF solo a]]
  have 3: "map_of (rooms (fst (disconnect ''A'' web_state))) ''111111'' = None"
    by simp
  from demo [THEN conjunct2, THEN conjunct1, rule_format, OF conjI [OF demo_room c]]
  have 4: "map_option participants
             (map_of (rooms (fst (leave_room ''C'' ''483920'' demo_state))) ''483920'') =
           Some [\<lparr>socketId = ''A'', userId = ''u1''\<rparr>]"
    by simp
  from demo [THEN conjunct2, THEN conjunct2, THEN conjunct1, rule_format,
      OF conjI [OF demo_room c]]
  have 5: "map_option participants
             (map_of (rooms (fst (disconnect ''C'' demo_state))) ''483920'') =
           Some [\<lparr>socketId = ''A'', userId = ''u1''\<rparr>]"
    by simp
  from new [THEN conjunct2, THEN conjunct2, THEN conjunct2, rule_format, OF free]
  have 6: "(\<exists>s' p. create_room ''B'' ''u2'' [''483920'', ''222222''] 4 web_state =
              Inr (s', [Callback (Created p)]) \<and>
            map_option participants (map_of (rooms s') p) =
              Some [\<lparr>socketId = ''B'', userId = ''u2''\<rparr>]) \<and>
   (\<exists>s' p. http_post_room [''483920'', ''222222''] 4 5 web_state = Inr (s', [HttpJson p 5]) \<and>
            map_option participants (map_of (rooms s') p) = Some [])"
    by blast
  from 1 2 3 4 5 6 show ?thesis
    by blast
qed

text \<open>
  \<^bold>\<open>C3\<close> fails as stated: \<open>Q\<close> joins after the transfer was started, is not in the
  recipient list of the transfer, and still receives the file.
\<close>

theorem file_received_reaches_late_joiner:
  "\<not> isl (run late_events init) \<and>
   map_option recipients (map_of (activeTransfers late_state) ''S_5'') = Some [''R''] \<and>
   \<not> isl (file_chunk ''S'' ''S_5'' 0 [1, 2] True late_state) \<and>
   file_received_to (fst (projr (file_chunk ''S'' ''S_5'' 0 [1, 2] True late_state)))
     (snd (projr (file_chunk ''S'' ''S_5'' 0 [1, 2] True late_state))) = {''R'', ''Q''} \<and>
   {''R'', ''Q''} \<noteq> set [''R'']"
  by code_simp

text \<open>
  \<^bold>\<open>C3\<close>, amended. In every reachable state, a \<^verbatim>\<open>file_chunk\<close> reaction that completes
  its transfer (the record is gone afterwards) delivers \<^verbatim>\<open>file_received\<close> to the
  connections that are in the transport group of the transfer's PIN at that moment, the
  sender excepted; a reaction that does not complete it delivers the file to nobody. Every
  connection then listed in the room of that PIN, the sender excepted, is among the
  receivers. The recipient list stored at initiation plays no part.
\<close>

theorem file_received_goes_to_group:
  assumes "run evs init = Inr (s, outs)"
    and "map_of (activeTransfers s) tid = Some t"
    and "file_chunk c tid i d l s = Inr (s', out)"
  shows "file_received_to s' out =
           (if map_of (activeTransfers s') tid = None then sio_rooms s (pin t) - {c} else {}) \<and>
         (\<forall>r. map_of (activeTransfers s') tid = None \<and> map_of (rooms s) (pin t) = Some r \<longrightarrow>
            socketId ` set (participants r) - {c} \<subseteq> file_received_to s' out)"
proof -
  have to: "file_received_to s' out =
           (if map_of (activeTransfers s') tid = None then sio_rooms s (pin t) - {c} else {})"
  proof (cases "from_socket t = c")
    case False
    with assms(2,3) show ?thesis by (auto simp: file_chunk_def)
  next
    case True
    with assms(2,3) show ?thesis
      by (auto simp: file_chunk_def Let_def update_conv' delete_conv' split: if_splits option.splits)
  qed
  from listed_ok_run [OF listed_ok_init assms(1)] have "listed_ok s" .
  then have "socketId ` set (participants r) \<subseteq> sio_rooms s (pin t)"
    if "map_of (rooms s) (pin t) = Some r" for r
    using that by (simp add: listed_ok_def)
  with to show ?thesis by auto
qed

theorem file_received_goes_to_group_witness:
  "file_received_to (fst (projr (file_chunk ''S'' ''S_5'' 0 [1, 2] True late_state)))
     (snd (projr (file_chunk ''S'' ''S_5'' 0 [1, 2] True late_state))) =
   sio_rooms late_state ''483920'' - {''S''} \<and>
   {''R'', ''Q''} \<subseteq>
     file_received_to (fst (projr (file_chunk ''S'' ''S_5'' 0 [1, 2] True late_state)))
       (snd (projr (file_chunk ''S'' ''S_5'' 0 [1, 2] True late_state)))"
proof -
  have t: "map_of (activeTransfers late_state) ''S_5'' =
      Some \<lparr>from_socket = ''S'', pin = ''483920'', fileName = ''f.bin'', fileSize = 2,
            fileType = ''bin'', chunks = [], totalChunks = 0, recipients = [''R''],
            startTime = 6\<rparr>"
    by code_simp
  have m: "map_of (rooms late_state) ''483920'' =
      Some \<lparr>creator = ''S'', creatorUserId = Some ''u1'',
            participants = [\<lparr>socketId = ''S'', userId = ''u1''\<rparr>,
                            \<lparr>socketId = ''R'', userId = ''u2''\<rparr>,
                            \<lparr>socketId = ''Q'', userId = ''u3''\<rparr>],
            uniqueUsers = {''u1'', ''u2'', ''u3''}, createdAt = 0\<rparr>"
    by code_simp
  have r: "\<not> isl (file_chunk ''S'' ''S_5'' 0 [1, 2] True late_state)"
    by code_simp
  have gone: "map_of (activeTransfers (fst (projr (file_chunk ''S'' ''S_5'' 0 [1, 2] True late_state))))
                ''S_5'' = None"
    by code_simp
  note inst = file_received_goes_to_group [OF late_reached t run_Inr [OF r]]
  from inst [THEN conjunct1] gone
  have 1: "file_received_to (fst (projr (file_chunk ''S'' ''S_5'' 0 [1, 2] True late_state)))
     (snd (projr (file_chunk ''S'' ''S_5'' 0 [1, 2] True late_state))) =
   sio_rooms late_state ''483920'' - {''S''}"
    by simp
  from inst [THEN conjunct2, rule_format, OF conjI [OF gone]] m
  have 2: "{''R'', ''Q''} \<subseteq>
     file_received_to (fst (projr (file_chunk ''S'' ''S_5'' 0 [1, 2] True late_state)))
       (snd (projr (file_chunk ''S'' ''S_5'' 0 [1, 2] True late_state)))"
    by (simp add: insert_Diff_if)
  from 1 2 show ?thesis ..
qed




end
